theory Spec2Isabelle
  imports Complex_Main
begin

section \<open>Pixel buffers\<close>

text \<open>
  An \<open>ImageData\<close> (and the single-channel buffers the filters build with the same three
  fields) is a record of a byte array and its dimensions. The entries of a
  \<open>Uint8ClampedArray\<close> are modelled as natural numbers; the conversion that every
  store into such an array performs is \<open>toUint8Clamp\<close>. JavaScript numbers are
  modelled by the reals (an idealisation of IEEE doubles: no rounding error), and a
  value that may be \<open>NaN\<close> or \<open>undefined\<close> by \<open>real option\<close> with \<open>None\<close> for
  both.
\<close>

record imageData =
  data :: "nat list"
  width :: nat
  height :: nat

text \<open>\<open>data[i]\<close>: reading past the end of the array gives \<open>undefined\<close>.\<close>

definition js_get :: "nat list \<Rightarrow> nat \<Rightarrow> real option" where
  "js_get xs i = (if i < length xs then Some (real (xs ! i)) else None)"

text \<open>
  The store conversion of a \<open>Uint8ClampedArray\<close> (ECMAScript \<open>ToUint8Clamp\<close>):
  \<open>NaN\<close> becomes 0, the value is clamped to 0..255 and rounded to the nearest
  integer, a tie going to the even neighbour.
\<close>

definition toUint8Clamp :: "real option \<Rightarrow> nat" where
  "toUint8Clamp v =
     (case v of
        None \<Rightarrow> 0
      | Some r \<Rightarrow>
          if r \<le> 0 then 0
          else if 255 \<le> r then 255
          else (let f = \<lfloor>r\<rfloor> in
                if of_int f + 1 / 2 < r then nat (f + 1)
                else if r < of_int f + 1 / 2 then nat f
                else if even f then nat f else nat (f + 1)))"

text \<open>\<open>Math.round\<close>: the nearest integer, a tie going up.\<close>

definition js_round :: "real \<Rightarrow> int" where
  "js_round v = \<lfloor>v + 1 / 2\<rfloor>"

text \<open>The values \<open>i = 0, 4, 8, ...\<close> of a loop \<open>for (i = 0; i < n; i += 4)\<close>.\<close>

definition steps4 :: "nat \<Rightarrow> nat list" where
  "steps4 n = map (\<lambda>j. 4 * j) [0..<(n + 3) div 4]"

section \<open>Filters: grayscale conversion\<close>

definition luminance :: "real \<Rightarrow> real \<Rightarrow> real \<Rightarrow> real" where
  "luminance r g b = 299 / 1000 * r + 587 / 1000 * g + 114 / 1000 * b"

text \<open>
  \<open>0.299 * data[i] + 0.587 * data[i + 1] + 0.114 * data[i + 2]\<close>; the sum is
  \<open>NaN\<close> as soon as one of the three reads is out of range. The code evaluates the
  expression in double precision: \<open>lum r g b\<close> stands for the double it gets for the
  bytes \<open>r\<close>, \<open>g\<close>, \<open>b\<close>, and is a parameter of the model.
\<close>

definition luminanceAtWith :: "(nat \<Rightarrow> nat \<Rightarrow> nat \<Rightarrow> real) \<Rightarrow> nat list \<Rightarrow> nat \<Rightarrow> real option" where
  "luminanceAtWith lum d i =
     (case js_get d i of
        None \<Rightarrow> None
      | Some r \<Rightarrow>
          (case js_get d (i + 1) of
             None \<Rightarrow> None
           | Some g \<Rightarrow>
               (case js_get d (i + 2) of
                  None \<Rightarrow> None
                | Some b \<Rightarrow> Some (lum (d ! i) (d ! (i + 1)) (d ! (i + 2))))))"

text \<open>
  \<open>convertToGrayscale\<close>: a zero-filled array of \<open>width * height\<close> bytes, then one
  store per pixel. A store at an index past the end of a typed array is ignored, which
  is what \<open>list_update\<close> does.
\<close>

definition convertToGrayscaleWith ::
  "(nat \<Rightarrow> nat \<Rightarrow> nat \<Rightarrow> real) \<Rightarrow> imageData \<Rightarrow> imageData" where
  "convertToGrayscaleWith lum imageData =
     (let d = data imageData;
          grayscale =
            fold (\<lambda>i gs. gs[i div 4 := toUint8Clamp (luminanceAtWith lum d i)])
              (steps4 (length d))
              (replicate (width imageData * height imageData) 0)
      in \<lparr>data = grayscale, width = width imageData, height = height imageData\<rparr>)"

text \<open>
  The same with the expression evaluated exactly, which is what the edge detector below
  is stated on: the double differs from the exact value by a rounding error only.
\<close>

definition luminanceAt :: "nat list \<Rightarrow> nat \<Rightarrow> real option" where
  "luminanceAt d i =
     (case js_get d i of
        None \<Rightarrow> None
      | Some r \<Rightarrow>
          (case js_get d (i + 1) of
             None \<Rightarrow> None
           | Some g \<Rightarrow>
               (case js_get d (i + 2) of
                  None \<Rightarrow> None
                | Some b \<Rightarrow> Some (luminance r g b))))"

definition convertToGrayscale :: "imageData \<Rightarrow> imageData" where
  "convertToGrayscale imageData =
     (let d = data imageData;
          grayscale =
            fold (\<lambda>i gs. gs[i div 4 := toUint8Clamp (luminanceAt d i)])
              (steps4 (length d))
              (replicate (width imageData * height imageData) 0)
      in \<lparr>data = grayscale, width = width imageData, height = height imageData\<rparr>)"


section \<open>Filters: raster loops over RGBA buffers\<close>

text \<open>
  The loop nest \<open>for (y = 0; y < height; y++) for (x = 0; x < width; x++)\<close> that
  the filters share: the body is run for every pixel in row-major order on the output
  built so far.
\<close>

definition for_pixels :: "nat \<Rightarrow> nat \<Rightarrow> (nat \<Rightarrow> nat \<Rightarrow> 'a \<Rightarrow> 'a) \<Rightarrow> 'a \<Rightarrow> 'a" where
  "for_pixels w h body s = fold (\<lambda>y. fold (\<lambda>x. body x y) [0..<w]) [0..<h] s"

text \<open>The four stores \<open>out[i] = r; out[i + 1] = g; out[i + 2] = b; out[i + 3] = a\<close>.\<close>

definition put4 :: "nat \<Rightarrow> nat \<times> nat \<times> nat \<times> nat \<Rightarrow> nat list \<Rightarrow> nat list" where
  "put4 i px out =
     (case px of (r, g, b, a) \<Rightarrow> out[i := r, i + 1 := g, i + 2 := b, i + 3 := a])"

text \<open>Storing a value read from a byte array into a \<open>Uint8ClampedArray\<close>.\<close>

definition storeByte :: "nat \<Rightarrow> nat" where
  "storeByte v = toUint8Clamp (Some (real v))"

text \<open>\<open>Math.min(Math.max(v, 0), n - 1)\<close>\<close>

definition clampCoord :: "int \<Rightarrow> nat \<Rightarrow> int" where
  "clampCoord v n = min (max v 0) (int n - 1)"

text \<open>
  The index of the kernel sample at offset \<open>(kx, ky)\<close> from pixel \<open>(x, y)\<close>:
  \<open>pixelX = clamp(x + kx)\<close>, \<open>pixelY = clamp(y + ky)\<close>,
  \<open>idx = (pixelY * width + pixelX) * 4\<close>. The loops that use it run only when
  width and height are positive, where the index is not negative.
\<close>

definition kernelIdx :: "nat \<Rightarrow> nat \<Rightarrow> nat \<Rightarrow> nat \<Rightarrow> int \<Rightarrow> int \<Rightarrow> nat" where
  "kernelIdx w h x y kx ky =
     (let pixelX = clampCoord (int x + kx) w;
          pixelY = clampCoord (int y + ky) h
      in nat ((pixelY * int w + pixelX) * 4))"

subsection \<open>Median filter\<close>

text \<open>
  The objects pushed on \<open>pixels\<close>. An \<open>ImageData\<close> always has
  \<open>data.length = 4 * width * height\<close>, and the clamped coordinates stay inside the
  image, so the four reads are in range.
\<close>

record kernelPixel =
  px_r :: nat
  px_g :: nat
  px_b :: nat
  px_a :: nat
  px_luminance :: real
  px_sourceIdx :: nat

definition gatherPixel :: "nat list \<Rightarrow> nat \<Rightarrow> kernelPixel" where
  "gatherPixel d idx =
     \<lparr>px_r = d ! idx, px_g = d ! (idx + 1), px_b = d ! (idx + 2), px_a = d ! (idx + 3),
      px_luminance = luminance (real (d ! idx)) (real (d ! (idx + 1))) (real (d ! (idx + 2))),
      px_sourceIdx = idx\<rparr>"

text \<open>
  \<open>applyMedianFilter\<close> on the image data of the canvas; \<open>kernelSize\<close> is a
  non-negative integer. \<open>Array.prototype.sort\<close> is stable, as \<open>sort_key\<close> is.
\<close>

definition applyMedianFilter :: "imageData \<Rightarrow> nat \<Rightarrow> imageData" where
  "applyMedianFilter imageData kernelSize0 =
     (let d = data imageData; w = width imageData; h = height imageData;
          kernelSize = (if kernelSize0 mod 2 = 0 then kernelSize0 + 1 else kernelSize0);
          halfKernel = kernelSize div 2;
          offsets = [- int halfKernel..int halfKernel];
          outputData =
            for_pixels w h
              (\<lambda>x y out.
                 let pixels = concat (map (\<lambda>ky. map (\<lambda>kx. gatherPixel d (kernelIdx w h x y kx ky))
                                                   offsets) offsets);
                     sortedPixels = sort_key px_luminance pixels;
                     medianPixel = sortedPixels ! (length sortedPixels div 2);
                     outputIdx = (y * w + x) * 4
                 in put4 outputIdx
                      (storeByte (px_r medianPixel), storeByte (px_g medianPixel),
                       storeByte (px_b medianPixel), storeByte (px_a medianPixel)) out)
              (replicate (length d) 0)
      in \<lparr>data = outputData, width = w, height = h\<rparr>)"

subsection \<open>Brighten filter\<close>

text \<open>\<open>luminance > 0\<close>, false when the luminance is \<open>NaN\<close>.\<close>

definition positive :: "real option \<Rightarrow> bool" where
  "positive v = (case v of None \<Rightarrow> False | Some l \<Rightarrow> 0 < l)"

text \<open>
  \<open>applyBrightenFilter\<close>: the two \<open>break\<close>s leave both kernel loops at the first
  sample with positive luminance, so \<open>brighten\<close> tells whether there is one.
\<close>

definition applyBrightenFilter :: "imageData \<Rightarrow> nat \<Rightarrow> imageData" where
  "applyBrightenFilter imageData kernelSize0 =
     (let d = data imageData; w = width imageData; h = height imageData;
          kernelSize = (if kernelSize0 mod 2 = 0 then kernelSize0 + 1 else kernelSize0);
          halfKernel = kernelSize div 2;
          offsets = [- int halfKernel..int halfKernel];
          outputData =
            for_pixels w h
              (\<lambda>x y out.
                 let brighten =
                       list_ex (\<lambda>ky. list_ex (\<lambda>kx. positive (luminanceAt d (kernelIdx w h x y kx ky)))
                                         offsets) offsets;
                     outputIdx = (y * w + x) * 4
                 in if brighten then put4 outputIdx (255, 255, 255, 255) out
                    else put4 outputIdx (0, 0, 0, 0) out)
              (replicate (length d) 0)
      in \<lparr>data = outputData, width = w, height = h\<rparr>)"

section \<open>Segmentation: separating the inside from the outside\<close>

text \<open>
  A read \<open>data[idx]\<close> whose index may be negative or past the end; \<open>None\<close> is
  \<open>undefined\<close>.
\<close>

definition js_byte :: "nat list \<Rightarrow> int \<Rightarrow> nat option" where
  "js_byte d idx = (if 0 \<le> idx \<and> idx < int (length d) then Some (d ! nat idx) else None)"

text \<open>
  The colour string \<open>`${data[i]},${data[i + 1]},${data[i + 2]}`\<close>. Two such strings
  are equal exactly when the three values are, so the key is modelled by the triple.
\<close>

type_synonym colorKey = "nat option \<times> nat option \<times> nat option"

definition colorAt :: "nat list \<Rightarrow> int \<Rightarrow> colorKey" where
  "colorAt d idx = (js_byte d idx, js_byte d (idx + 1), js_byte d (idx + 2))"

text \<open>
  \<open>edgePixels.set(color, (edgePixels.get(color) || 0) + 1)\<close> on a \<open>Map\<close>, kept as the
  list of its entries in insertion order.
\<close>

fun countColor :: "colorKey \<Rightarrow> (colorKey \<times> nat) list \<Rightarrow> (colorKey \<times> nat) list" where
  "countColor c [] = [(c, 1)]"
| "countColor c ((k, n) # m) = (if k = c then (k, n + 1) # m else (k, n) # countColor c m)"

text \<open>
  \<open>count / totalEdgePixels > threshold\<close>. A 1 x 1 image has \<open>totalEdgePixels = 0\<close>;
  the counts are positive, so the quotient is then \<open>Infinity\<close>, which exceeds every
  threshold.
\<close>

definition exceedsThreshold :: "nat \<Rightarrow> int \<Rightarrow> real \<Rightarrow> bool" where
  "exceedsThreshold count totalEdgePixels threshold =
     (if totalEdgePixels = 0 then 0 < count
      else threshold < real count / real_of_int totalEdgePixels)"

definition edgePixelCounts :: "nat list \<Rightarrow> nat \<Rightarrow> nat \<Rightarrow> (colorKey \<times> nat) list" where
  "edgePixelCounts d w h =
     (let topBottom =
            fold (\<lambda>x edgePixels.
                    let topIdx = (int x + 0 * int w) * 4;
                        edgePixels1 = countColor (colorAt d topIdx) edgePixels;
                        bottomIdx = (int x + (int h - 1) * int w) * 4
                    in countColor (colorAt d bottomIdx) edgePixels1)
              [0..<w] []
      in fold (\<lambda>y edgePixels.
                 let leftIdx = (0 + int y * int w) * 4;
                     edgePixels1 = countColor (colorAt d leftIdx) edgePixels;
                     rightIdx = ((int w - 1) + int y * int w) * 4
                 in countColor (colorAt d rightIdx) edgePixels1)
           [1..<h - 1] topBottom)"

text \<open>
  One round of the last loop: the pixel at \<open>i\<close> of the buffer being rewritten in
  place becomes opaque black when its colour is an outside colour, opaque white
  otherwise.
\<close>

definition repaintPixel :: "colorKey list \<Rightarrow> nat \<Rightarrow> nat list \<Rightarrow> nat list" where
  "repaintPixel outsideColors i d =
     (if colorAt d (int i) \<in> set outsideColors then put4 i (0, 0, 0, 255) d
      else put4 i (255, 255, 255, 255) d)"

definition separateInside :: "imageData \<Rightarrow> real \<Rightarrow> imageData" where
  "separateInside imageData threshold =
     (let d = data imageData; w = width imageData; h = height imageData;
          edgePixels = edgePixelCounts d w h;
          totalEdgePixels = 2 * int w + 2 * int h - 4;
          outsideColors =
            map fst (filter (\<lambda>(color, count). exceedsThreshold count totalEdgePixels threshold)
                       edgePixels);
          d' = fold (repaintPixel outsideColors) (steps4 (length d)) d
      in \<lparr>data = d', width = w, height = h\<rparr>)"

section \<open>Grid wall extractor\<close>

text \<open>\<open>data[idx] >= threshold\<close>, false when the read is \<open>undefined\<close>.\<close>

definition sampleBright :: "nat list \<Rightarrow> int \<Rightarrow> real \<Rightarrow> bool" where
  "sampleBright d idx threshold =
     (case js_byte d idx of None \<Rightarrow> False | Some v \<Rightarrow> threshold \<le> real v)"

text \<open>
  The two tests of round \<open>i\<close> of the scan of the tile at \<open>(x, y)\<close>: the sample on
  the tile's top row (left column) or, when its index passes the guard
  \<open>index >= 0 && index < data.length\<close>, the sample at the index one row above (one
  column to the left).
\<close>

definition brightH :: "nat list \<Rightarrow> nat \<Rightarrow> nat \<Rightarrow> nat \<Rightarrow> nat \<Rightarrow> real \<Rightarrow> bool" where
  "brightH d w x y i threshold =
     (let indexH = (int y * int w + int x + int i) * 4;
          indexH2 = ((int y - 1) * int w + int x + int i) * 4
      in sampleBright d indexH threshold \<or>
         (0 \<le> indexH2 \<and> indexH2 < int (length d) \<and> sampleBright d indexH2 threshold))"

definition brightV :: "nat list \<Rightarrow> nat \<Rightarrow> nat \<Rightarrow> nat \<Rightarrow> nat \<Rightarrow> real \<Rightarrow> bool" where
  "brightV d w x y i threshold =
     (let indexV = ((int y + int i) * int w + int x) * 4;
          indexV2 = ((int y + int i) * int w + (int x - 1)) * 4
      in sampleBright d indexV threshold \<or>
         (0 \<le> indexV2 \<and> indexV2 < int (length d) \<and> sampleBright d indexV2 threshold))"

text \<open>
  One round of a run counter, on the pair (longest run so far, current run):
  \<open>if (bright) { run++; m = Math.max(m, run); } else { run = 0; }\<close>
\<close>

fun runStep :: "bool \<Rightarrow> nat \<times> nat \<Rightarrow> nat \<times> nat" where
  "runStep b (m, run) = (if b then (max m (run + 1), run + 1) else (m, 0))"

text \<open>
  The loop \<open>for (i = 0; i < grid; i++)\<close> of one tile, on the state
  ((mhorizontal, horizontal), (mvertical, vertical)).
\<close>

definition tileScan ::
  "nat list \<Rightarrow> nat \<Rightarrow> nat \<Rightarrow> nat \<Rightarrow> nat \<Rightarrow> real \<Rightarrow> (nat \<times> nat) \<times> (nat \<times> nat)" where
  "tileScan d w x y grid threshold =
     fold (\<lambda>i (hs, vs). (runStep (brightH d w x y i threshold) hs,
                          runStep (brightV d w x y i threshold) vs))
       [0..<grid] ((0, 0), (0, 0))"

text \<open>The segments pushed for one tile: \<open>[x, y, x + grid, y]\<close>, then \<open>[x, y, x, y + grid]\<close>.\<close>

type_synonym wallSegment = "nat \<times> nat \<times> nat \<times> nat"

definition tileWalls :: "nat list \<Rightarrow> nat \<Rightarrow> nat \<Rightarrow> nat \<Rightarrow> nat \<Rightarrow> real \<Rightarrow> wallSegment list" where
  "tileWalls d w x y grid threshold =
     (case tileScan d w x y grid threshold of
        ((mhorizontal, horizontal), (mvertical, vertical)) \<Rightarrow>
          (if real grid / 2 < real mhorizontal then [(x, y, x + grid, y)] else []) @
          (if real grid / 2 < real mvertical then [(x, y, x, y + grid)] else []))"

text \<open>The values \<open>v = 0, grid, 2 * grid, ...\<close> of \<open>for (v = 0; v < limit; v += grid)\<close>, for a positive \<open>grid\<close>.\<close>

definition gridSteps :: "nat \<Rightarrow> nat \<Rightarrow> nat list" where
  "gridSteps limit grid = map (\<lambda>j. j * grid) [0..<(limit + grid - 1) div grid]"

text \<open>
  \<open>identifyWalls\<close> on the image data of the canvas. \<open>grid\<close> is a non-negative
  integer; with \<open>grid = 0\<close> the loop variables never advance and the function does
  not return (\<open>None\<close>) as soon as the outer loop is entered.
\<close>

definition identifyWalls :: "imageData \<Rightarrow> nat \<Rightarrow> real \<Rightarrow> wallSegment list option" where
  "identifyWalls canvas grid threshold =
     (if grid = 0 \<and> 0 < height canvas then None
      else Some (concat (map (\<lambda>y. concat (map (\<lambda>x. tileWalls (data canvas) (width canvas) x y grid threshold)
                                             (gridSteps (width canvas) grid)))
                         (gridSteps (height canvas) grid))))"

section \<open>Filters: Gaussian blur\<close>

text \<open>
  \<open>kernelSize = Math.max(3, Math.ceil(sigma * 3) * 2 + 1)\<close> and
  \<open>halfSize = Math.floor(kernelSize / 2)\<close>.
\<close>

definition gaussKernelSize :: "real \<Rightarrow> int" where
  "gaussKernelSize sigma = max 3 (\<lceil>sigma * 3\<rceil> * 2 + 1)"

definition gaussHalfSize :: "real \<Rightarrow> int" where
  "gaussHalfSize sigma = gaussKernelSize sigma div 2"

text \<open>
  The kernel before and after normalisation, for \<open>sigma \<noteq> 0\<close>:
  \<open>kernel[i] = Math.exp(-(x * x) / (2 * sigma * sigma))\<close> with \<open>x = i - halfSize\<close>,
  then every entry divided by the sum of all. (The \<open>Float32Array\<close> that holds the
  kernel is idealised: its entries are reals.)
\<close>

definition gaussRawKernel :: "real \<Rightarrow> real list" where
  "gaussRawKernel sigma =
     map (\<lambda>i. let x = real_of_int (int i - gaussHalfSize sigma)
              in exp (- (x * x) / (2 * sigma * sigma)))
       [0..<nat (gaussKernelSize sigma)]"

definition gaussKernel :: "real \<Rightarrow> real list" where
  "gaussKernel sigma =
     (let raw = gaussRawKernel sigma; sum = fold (\<lambda>v s. s + v) raw 0
      in map (\<lambda>v. v / sum) raw)"

text \<open>
  The inner loop \<open>sum = 0; for (k = -halfSize; k <= halfSize; k++) sum += sample * kernel[k + halfSize]\<close>
  over the list of (sample, weight) pairs; the sum is \<open>NaN\<close> once a sample is
  \<open>undefined\<close>.
\<close>

definition weightedSum :: "(real option \<times> real) list \<Rightarrow> real option" where
  "weightedSum samples =
     fold (\<lambda>(v, k) sum. case sum of None \<Rightarrow> None
                          | Some s \<Rightarrow> (case v of None \<Rightarrow> None | Some r \<Rightarrow> Some (s + r * k)))
       samples (Some 0)"

text \<open>The horizontal pass: \<open>xPos = clamp(x + k)\<close>, sample \<open>data[y * width + xPos]\<close>.\<close>

text \<open>(The list \<open>kern\<close> is the source's \<open>kernel\<close>.)\<close>

definition blurHorizontal :: "real list \<Rightarrow> int \<Rightarrow> nat list \<Rightarrow> nat \<Rightarrow> nat \<Rightarrow> nat list" where
  "blurHorizontal kern halfSize d w h =
     for_pixels w h
       (\<lambda>x y tempData.
          tempData[y * w + x :=
            toUint8Clamp (weightedSum
              (map (\<lambda>k. (js_get d (nat (int y * int w + clampCoord (int x + k) w)),
                         kern ! nat (k + halfSize)))
                 [- halfSize..halfSize]))])
       (replicate (w * h) 0)"

text \<open>The vertical pass: \<open>yPos = clamp(y + k)\<close>, sample \<open>tempData[yPos * width + x]\<close>.\<close>

definition blurVertical :: "real list \<Rightarrow> int \<Rightarrow> nat list \<Rightarrow> nat \<Rightarrow> nat \<Rightarrow> nat list" where
  "blurVertical kern halfSize tempData w h =
     for_pixels w h
       (\<lambda>x y blurredData.
          blurredData[y * w + x :=
            toUint8Clamp (weightedSum
              (map (\<lambda>k. (js_get tempData (nat (clampCoord (int y + k) h * int w + int x)),
                         kern ! nat (k + halfSize)))
                 [- halfSize..halfSize]))])
       (replicate (w * h) 0)"

text \<open>
  \<open>applyGaussianBlur\<close>. With \<open>sigma = 0\<close> the centre entry of the kernel is
  \<open>exp(-0 / 0) = NaN\<close>, so is the sum and every normalised entry, and every store
  writes 0.
\<close>

definition applyGaussianBlur :: "imageData \<Rightarrow> real \<Rightarrow> imageData" where
  "applyGaussianBlur imageData sigma =
     (let d = data imageData; w = width imageData; h = height imageData
      in if sigma = 0 then \<lparr>data = replicate (w * h) 0, width = w, height = h\<rparr>
         else
           (let halfSize = gaussHalfSize sigma;
                kern = gaussKernel sigma;
                tempData = blurHorizontal kern halfSize d w h;
                blurredData = blurVertical kern halfSize tempData w h
            in \<lparr>data = blurredData, width = w, height = h\<rparr>))"

subsection \<open>The blur in the arithmetic of the code\<close>

text \<open>
  The code computes the kernel and the weighted sums in floating point: doubles for the
  products, quotients and sums, a \<open>Float32Array\<close> for the kernel. Its numbers
  (infinities and \<open>NaN\<close> included) are the values of a type \<open>'n\<close>, and the operations
  it applies to them are the fields of a record, a parameter of the model: what is
  proved of \<open>applyGaussianBlurWith\<close> holds however each operation rounds.
  \<open>js_num\<close> is an integer as a number, \<open>js_fround\<close> the rounding of a store into a
  \<open>Float32Array\<close>, \<open>js_ceil\<close> is \<open>Math.ceil\<close> (of a finite number, as an integer),
  \<open>js_toUint8\<close> the conversion of a store into a \<open>Uint8ClampedArray\<close>.
\<close>

record 'n jsArith =
  js_num :: "int \<Rightarrow> 'n"
  js_nan :: 'n
  js_mul :: "'n \<Rightarrow> 'n \<Rightarrow> 'n"
  js_add :: "'n \<Rightarrow> 'n \<Rightarrow> 'n"
  js_div :: "'n \<Rightarrow> 'n \<Rightarrow> 'n"
  js_neg :: "'n \<Rightarrow> 'n"
  js_exp :: "'n \<Rightarrow> 'n"
  js_fround :: "'n \<Rightarrow> 'n"
  js_ceil :: "'n \<Rightarrow> int"
  js_toUint8 :: "'n \<Rightarrow> nat"

text \<open>
  \<open>kernelSize = Math.max(3, Math.ceil(sigma * 3) * 2 + 1)\<close>, for a finite \<open>sigma\<close>,
  and \<open>halfSize = Math.floor(kernelSize / 2)\<close>.
\<close>

definition gaussKernelSizeWith :: "'n jsArith \<Rightarrow> 'n \<Rightarrow> int" where
  "gaussKernelSizeWith A sigma = max 3 (js_ceil A (js_mul A sigma (js_num A 3)) * 2 + 1)"

definition gaussHalfSizeWith :: "'n jsArith \<Rightarrow> 'n \<Rightarrow> int" where
  "gaussHalfSizeWith A sigma = gaussKernelSizeWith A sigma div 2"

text \<open>
  \<open>kernel[i] = Math.exp(-(x * x) / (2 * sigma * sigma))\<close> with \<open>x = i - halfSize\<close>, as
  stored in the \<open>Float32Array\<close>.
\<close>

definition gaussRawKernelWith :: "'n jsArith \<Rightarrow> 'n \<Rightarrow> 'n list" where
  "gaussRawKernelWith A sigma =
     map (\<lambda>i. let x = js_num A (int i - gaussHalfSizeWith A sigma)
              in js_fround A
                   (js_exp A
                      (js_div A (js_neg A (js_mul A x x))
                         (js_mul A (js_mul A (js_num A 2) sigma) sigma))))
       [0..<nat (gaussKernelSizeWith A sigma)]"

text \<open>\<open>sum += kernel[i]\<close> over the kernel, from \<open>sum = 0\<close>.\<close>

definition kernelSumWith :: "'n jsArith \<Rightarrow> 'n list \<Rightarrow> 'n" where
  "kernelSumWith A raw = fold (\<lambda>v sum. js_add A sum v) raw (js_num A 0)"

text \<open>\<open>kernel[i] /= sum\<close> for every entry.\<close>

definition gaussKernelWith :: "'n jsArith \<Rightarrow> 'n \<Rightarrow> 'n list" where
  "gaussKernelWith A sigma =
     (let raw = gaussRawKernelWith A sigma; sum = kernelSumWith A raw
      in map (\<lambda>v. js_fround A (js_div A v sum)) raw)"

text \<open>
  The inner loop \<open>sum = 0; for (k = -halfSize; k <= halfSize; k++) sum += sample * kernel[k + halfSize]\<close>
  over the list of (sample, weight) pairs; the product with an \<open>undefined\<close> sample is
  \<open>NaN\<close>.
\<close>

definition weightedSumWith :: "'n jsArith \<Rightarrow> (nat option \<times> 'n) list \<Rightarrow> 'n" where
  "weightedSumWith A samples =
     fold (\<lambda>(v, k) sum.
             js_add A sum (case v of None \<Rightarrow> js_nan A | Some r \<Rightarrow> js_mul A (js_num A (int r)) k))
       samples (js_num A 0)"

text \<open>The horizontal pass: \<open>xPos = clamp(x + k)\<close>, sample \<open>data[y * width + xPos]\<close>.\<close>

definition blurHorizontalWith ::
  "'n jsArith \<Rightarrow> 'n list \<Rightarrow> int \<Rightarrow> nat list \<Rightarrow> nat \<Rightarrow> nat \<Rightarrow> nat list" where
  "blurHorizontalWith A kern halfSize d w h =
     for_pixels w h
       (\<lambda>x y tempData.
          tempData[y * w + x :=
            js_toUint8 A (weightedSumWith A
              (map (\<lambda>k. (js_byte d (int y * int w + clampCoord (int x + k) w),
                         kern ! nat (k + halfSize)))
                 [- halfSize..halfSize]))])
       (replicate (w * h) 0)"

text \<open>The vertical pass: \<open>yPos = clamp(y + k)\<close>, sample \<open>tempData[yPos * width + x]\<close>.\<close>

definition blurVerticalWith ::
  "'n jsArith \<Rightarrow> 'n list \<Rightarrow> int \<Rightarrow> nat list \<Rightarrow> nat \<Rightarrow> nat \<Rightarrow> nat list" where
  "blurVerticalWith A kern halfSize tempData w h =
     for_pixels w h
       (\<lambda>x y blurredData.
          blurredData[y * w + x :=
            js_toUint8 A (weightedSumWith A
              (map (\<lambda>k. (js_byte tempData (clampCoord (int y + k) h * int w + int x),
                         kern ! nat (k + halfSize)))
                 [- halfSize..halfSize]))])
       (replicate (w * h) 0)"

definition applyGaussianBlurWith :: "'n jsArith \<Rightarrow> imageData \<Rightarrow> 'n \<Rightarrow> imageData" where
  "applyGaussianBlurWith A imageData sigma =
     (let d = data imageData; w = width imageData; h = height imageData;
          halfSize = gaussHalfSizeWith A sigma;
          kern = gaussKernelWith A sigma;
          tempData = blurHorizontalWith A kern halfSize d w h;
          blurredData = blurVerticalWith A kern halfSize tempData w h
      in \<lparr>data = blurredData, width = w, height = h\<rparr>)"

text \<open>
  Exact arithmetic on the reals: every operation without rounding. (It has no \<open>NaN\<close>;
  the field is not used when every read is in range.) With it, and \<open>sigma \<noteq> 0\<close>, the
  kernel is \<open>gaussKernel\<close> above.
\<close>

definition exactArith :: "real jsArith" where
  "exactArith =
     \<lparr>js_num = real_of_int, js_nan = 0, js_mul = (*), js_add = (+), js_div = (/),
      js_neg = uminus, js_exp = exp, js_fround = (\<lambda>v. v), js_ceil = ceiling,
      js_toUint8 = (\<lambda>v. toUint8Clamp (Some v))\<rparr>"

section \<open>Edge detection: the Canny-style detector\<close>

datatype error = NoEdgesDetected

text \<open>
  The interior loop nest \<open>for (y = 1; y < height - 1; y++) for (x = 1; x < width - 1; x++)\<close>.
\<close>

definition for_interior :: "nat \<Rightarrow> nat \<Rightarrow> (nat \<Rightarrow> nat \<Rightarrow> 'a \<Rightarrow> 'a) \<Rightarrow> 'a \<Rightarrow> 'a" where
  "for_interior w h body s = fold (\<lambda>y. fold (\<lambda>x. body x y) [1..<w - 1]) [1..<h - 1] s"

subsection \<open>Gradients\<close>

definition sobelX :: "real list" where
  "sobelX = [-1, 0, 1, -2, 0, 2, -1, 0, 1]"

definition sobelY :: "real list" where
  "sobelY = [-1, -2, -1, 0, 0, 0, 1, 2, 1]"

text \<open>The pairs \<open>(ky, kx)\<close> of the two kernel loops, in the order they are visited.\<close>

definition sobelOffsets :: "(int \<times> int) list" where
  "sobelOffsets = concat (map (\<lambda>ky. map (\<lambda>kx. (ky, kx)) [-1..1]) [-1..1])"

text \<open>
  \<open>gx\<close> (with \<open>sobelX\<close>) and \<open>gy\<close> (with \<open>sobelY\<close>) at the pixel \<open>(x, y)\<close>:
  \<open>idx = (y + ky) * width + (x + kx)\<close>, \<open>kernelIdx = (ky + 1) * 3 + (kx + 1)\<close>.
\<close>

definition sobelAt :: "real list \<Rightarrow> nat list \<Rightarrow> nat \<Rightarrow> nat \<Rightarrow> nat \<Rightarrow> real option" where
  "sobelAt sobel d w x y =
     weightedSum
       (map (\<lambda>(ky, kx). (js_get d (nat ((int y + ky) * int w + (int x + kx))),
                          sobel ! nat ((ky + 1) * 3 + (kx + 1))))
          sobelOffsets)"

text \<open>\<open>Math.atan2(y, x)\<close> on reals.\<close>

definition js_atan2 :: "real \<Rightarrow> real \<Rightarrow> real" where
  "js_atan2 y x =
     (if 0 < x then arctan (y / x)
      else if x < 0 then (if 0 \<le> y then arctan (y / x) + pi else arctan (y / x) - pi)
      else if 0 < y then pi / 2 else if y < 0 then - pi / 2 else 0)"

text \<open>The direction bucket of a gradient, in degrees.\<close>

definition gradientBucket :: "real \<Rightarrow> real \<Rightarrow> nat" where
  "gradientBucket gx gy =
     (let angle0 = js_atan2 gy gx * 180 / pi;
          angle = (if angle0 < 0 then angle0 + 180 else angle0)
      in if (0 \<le> angle \<and> angle < 45 / 2) \<or> (315 / 2 \<le> angle \<and> angle \<le> 180) then 0
         else if 45 / 2 \<le> angle \<and> angle < 135 / 2 then 45
         else if 135 / 2 \<le> angle \<and> angle < 225 / 2 then 90
         else 135)"

text \<open>
  The values stored for one pixel: \<open>Math.min(255, magnitude)\<close> and the direction. A
  \<open>NaN\<close> gradient fails every comparison and lands in the last bucket.
\<close>

definition gradientAt :: "nat list \<Rightarrow> nat \<Rightarrow> nat \<Rightarrow> nat \<Rightarrow> nat \<times> nat" where
  "gradientAt d w x y =
     (case sobelAt sobelX d w x y of
        None \<Rightarrow> (toUint8Clamp None, 135)
      | Some gx \<Rightarrow>
          (case sobelAt sobelY d w x y of
             None \<Rightarrow> (toUint8Clamp None, 135)
           | Some gy \<Rightarrow>
               (toUint8Clamp (Some (min 255 (sqrt (gx * gx + gy * gy)))),
                storeByte (gradientBucket gx gy))))"

text \<open>\<open>calculateGradients\<close>: the pair (gradientMagnitude, gradientDirection).\<close>

definition calculateGradients :: "imageData \<Rightarrow> nat list \<times> nat list" where
  "calculateGradients imageData =
     (let d = data imageData; w = width imageData; h = height imageData
      in for_interior w h
           (\<lambda>x y (gradientMagnitude, gradientDirection).
              let idx = y * w + x
              in (gradientMagnitude[idx := fst (gradientAt d w x y)],
                  gradientDirection[idx := snd (gradientAt d w x y)]))
           (replicate (w * h) 0, replicate (w * h) 0))"

subsection \<open>Non-maximum suppression\<close>

text \<open>\<open>Math.max(0, Math.min(n - 1, v))\<close>\<close>

definition clampNeighbor :: "int \<Rightarrow> nat \<Rightarrow> int" where
  "clampNeighbor v n = max 0 (min (int n - 1) v)"

text \<open>
  The value stored in \<open>suppressed[idx]\<close> for the interior pixel \<open>(x, y)\<close>. Both arrays
  have \<open>width * height\<close> entries, so the reads are in range.
\<close>

definition suppressedAt :: "nat list \<Rightarrow> nat list \<Rightarrow> nat \<Rightarrow> nat \<Rightarrow> nat \<Rightarrow> nat \<Rightarrow> nat" where
  "suppressedAt magnitudeData directionData w h x y =
     (let idx = y * w + x;
          magnitude = magnitudeData ! idx
      in if magnitude < 10 then 0
         else
           (let direction = directionData ! idx;
                (neighbor1X, neighbor1Y, neighbor2X, neighbor2Y) =
                  (if direction = 0 then (int x - 1, int y, int x + 1, int y)
                   else if direction = 45 then (int x + 1, int y - 1, int x - 1, int y + 1)
                   else if direction = 90 then (int x, int y - 1, int x, int y + 1)
                   else (int x - 1, int y - 1, int x + 1, int y + 1));
                neighbor1Idx = nat (clampNeighbor neighbor1Y h * int w + clampNeighbor neighbor1X w);
                neighbor2Idx = nat (clampNeighbor neighbor2Y h * int w + clampNeighbor neighbor2X w);
                neighbor1Value = magnitudeData ! neighbor1Idx;
                neighbor2Value = magnitudeData ! neighbor2Idx
            in if neighbor1Value \<le> magnitude \<and> neighbor2Value \<le> magnitude
               then storeByte magnitude else 0))"

definition applyNonMaximumSuppression :: "nat list \<Rightarrow> nat list \<Rightarrow> nat \<Rightarrow> nat \<Rightarrow> imageData" where
  "applyNonMaximumSuppression magnitudeData directionData w h =
     \<lparr>data = for_interior w h
               (\<lambda>x y suppressed.
                  suppressed[y * w + x := suppressedAt magnitudeData directionData w h x y])
               (replicate (w * h) 0),
      width = w, height = h\<rparr>"

subsection \<open>Hysteresis\<close>

definition neighborDx :: "int list" where
  "neighborDx = [-1, -1, 0, 1, 1, 1, 0, -1]"

definition neighborDy :: "int list" where
  "neighborDy = [0, -1, -1, -1, 0, 1, 1, 1]"

text \<open>
  One round of the loop over the 8 neighbours inside \<open>trace\<close>, on the state (edges,
  visited, stack); the stack is a list with its top first. \<open>visited\<close> has
  \<open>width * height\<close> entries, so the index of a neighbour inside the image is always in
  its range; the model states that bound in the test.
\<close>

definition visitNeighbor ::
  "nat list \<Rightarrow> nat \<Rightarrow> nat \<Rightarrow> real \<Rightarrow> int \<Rightarrow> int \<Rightarrow> nat \<Rightarrow>
   nat list \<times> nat list \<times> (int \<times> int) list \<Rightarrow> nat list \<times> nat list \<times> (int \<times> int) list" where
  "visitNeighbor d w h lowThreshold x y i st =
     (case st of (edges, visited, stack) \<Rightarrow>
        let nx = x + neighborDx ! i; ny = y + neighborDy ! i
        in if 0 \<le> nx \<and> nx < int w \<and> 0 \<le> ny \<and> ny < int h then
             (let neighborIdx = nat (ny * int w + nx)
              in if neighborIdx < length visited \<and> visited ! neighborIdx = 0 \<and>
                    sampleBright d (int neighborIdx) lowThreshold
                 then (edges[neighborIdx := 255], visited[neighborIdx := 1], (nx, ny) # stack)
                 else st)
           else st)"

text \<open>The number of entries of \<open>visited\<close> still 0: with the stack, what bounds the loop.\<close>

definition unvisited :: "nat list \<Rightarrow> nat" where
  "unvisited visited = length (filter (\<lambda>v. v = 0) visited)"

lemma unvisited_mark:
  "i < length visited \<Longrightarrow> visited ! i = 0 \<Longrightarrow>
   Suc (unvisited (visited[i := 1])) = unvisited visited"
proof (induction visited arbitrary: i)
  case Nil
  then show ?case by simp
next
  case (Cons v vs)
  then show ?case
    by (cases i) (auto simp: unvisited_def)
qed

lemma visitNeighbor_measure:
  "visitNeighbor d w h low x y i (edges, visited, stack) = (edges', visited', stack') \<Longrightarrow>
   unvisited visited' + length stack' = unvisited visited + length stack"
  by (auto simp: visitNeighbor_def Let_def unvisited_mark [symmetric] split: if_splits)

lemma visitNeighbors_measure:
  "fold (visitNeighbor d w h low x y) is (edges, visited, stack) = (edges', visited', stack') \<Longrightarrow>
   unvisited visited' + length stack' = unvisited visited + length stack"
proof (induction "is" arbitrary: edges visited stack)
  case Nil
  then show ?case by simp
next
  case (Cons i "is")
  obtain e v s where step: "visitNeighbor d w h low x y i (edges, visited, stack) = (e, v, s)"
    by (cases "visitNeighbor d w h low x y i (edges, visited, stack)")
  with Cons.prems have "fold (visitNeighbor d w h low x y) is (e, v, s) = (edges', visited', stack')"
    by simp
  from Cons.IH [OF this] visitNeighbor_measure [OF step] show ?case by simp
qed

lemma visitNeighbors_total:
  "(case fold (visitNeighbor d w h low x y) is (edges, visited, stack) of
      (edges', visited', stack') \<Rightarrow> unvisited visited' + length stack') =
   unvisited visited + length stack"
proof (cases "fold (visitNeighbor d w h low x y) is (edges, visited, stack)")
  case (fields e v s)
  from visitNeighbors_measure [OF this] fields show ?thesis by simp
qed

text \<open>
  \<open>trace\<close>: the loop \<open>while (stack.length > 0)\<close>, which pops a pixel and visits its 8
  neighbours. It returns (edges, visited).
\<close>

function traceLoop ::
  "nat list \<Rightarrow> nat \<Rightarrow> nat \<Rightarrow> real \<Rightarrow> nat list \<Rightarrow> nat list \<Rightarrow> (int \<times> int) list \<Rightarrow> nat list \<times> nat list" where
  "traceLoop d w h lowThreshold edges visited [] = (edges, visited)"
| "traceLoop d w h lowThreshold edges visited ((x, y) # stack) =
     (case fold (visitNeighbor d w h lowThreshold x y) [0..<8] (edges, visited, stack) of
        (edges', visited', stack') \<Rightarrow> traceLoop d w h lowThreshold edges' visited' stack')"
  by pat_completeness auto
termination
  by (relation "measure (\<lambda>(d, w, h, low, edges, visited, stack). unvisited visited + length stack)")
    (auto simp: visitNeighbors_total)

text \<open>
  \<open>applyHysteresis\<close>: the strong edges first, then a trace from every pixel that is an
  edge when the raster scan reaches it.
\<close>

definition applyHysteresis :: "imageData \<Rightarrow> real \<Rightarrow> real \<Rightarrow> nat list" where
  "applyHysteresis suppressedEdges lowThreshold highThreshold =
     (let d = data suppressedEdges; w = width suppressedEdges; h = height suppressedEdges;
          strong =
            fold (\<lambda>i (edges, visited).
                    if sampleBright d (int i) highThreshold
                    then (edges[i := 255], visited[i := 1]) else (edges, visited))
              [0..<length d] (replicate (w * h) 0, replicate (w * h) 0)
      in fst (for_pixels w h
                (\<lambda>x y (edges, visited).
                   let idx = y * w + x
                   in if edges ! idx = 255 \<and> visited ! idx = 1
                      then traceLoop d w h lowThreshold edges visited [(int x, int y)]
                      else (edges, visited))
                strong))"

subsection \<open>The detector\<close>

text \<open>The suppressed gradient magnitudes of an RGBA image (steps 1 to 3).\<close>

definition suppressedEdgesOf :: "imageData \<Rightarrow> real \<Rightarrow> imageData" where
  "suppressedEdgesOf imageData sigma =
     (let grayscaleData = convertToGrayscale imageData;
          blurredData = applyGaussianBlur grayscaleData sigma;
          (gradientMagnitude, gradientDirection) = calculateGradients blurredData
      in applyNonMaximumSuppression gradientMagnitude gradientDirection
           (width imageData) (height imageData))"

text \<open>
  \<open>cannyEdgeDetection\<close> on the image data of the canvas: the error, or the image put
  back on the canvas at the end (the normalised picture put there in between is
  overwritten by it). The canvas holds an image of positive width and height (the host's
  \<open>getImageData\<close> rejects an empty one before any of this runs).
\<close>

definition cannyEdgeDetection :: "imageData \<Rightarrow> real \<Rightarrow> real \<Rightarrow> real \<Rightarrow> error + imageData" where
  "cannyEdgeDetection imageData lowThreshold highThreshold sigma =
     (let w = width imageData; h = height imageData;
          suppressedEdges = suppressedEdgesOf imageData sigma;
          maxValue = fold (\<lambda>v m. if m < v then v else m) (data suppressedEdges) 1
      in if maxValue \<le> 1 then Inl NoEdgesDetected
         else
           (let edges = applyHysteresis suppressedEdges lowThreshold highThreshold;
                outputData =
                  fold (\<lambda>i out.
                          let edgeValue = (if edges ! i = 255 then 255 else 0)
                          in put4 (i * 4) (edgeValue, edgeValue, edgeValue, 255) out)
                    [0..<length edges] (replicate (4 * w * h) 0)
            in Inr \<lparr>data = outputData, width = w, height = h\<rparr>))"

section \<open>Wall merger\<close>

text \<open>
  A wall document of the scene: its id, its coordinates \<open>c = [x1, y1, x2, y2]\<close> and the
  attributes the filter reads. The host's constants (\<open>CONST.WALL_DOOR_TYPES.NONE\<close>,
  \<open>CONST.WALL_DIRECTIONS.BOTH\<close>, \<open>CONST.WALL_SENSE_TYPES.NORMAL\<close>,
  \<open>CONST.WALL_MOVEMENT_TYPES.NORMAL\<close>) are not part of this repository and are taken
  as a parameter. \<open>None\<close> is \<open>null\<close>.
\<close>

record wall =
  wall_id :: string
  wall_c :: "real \<times> real \<times> real \<times> real"
  wall_door :: int
  wall_dir :: int
  wall_light :: int
  wall_sight :: int
  wall_sound :: int
  wall_move :: int
  wall_attenuation :: bool
  wall_threshold_light :: "real option"
  wall_threshold_sight :: "real option"
  wall_threshold_sound :: "real option"

record wallConsts =
  DOOR_NONE :: int
  DIRECTION_BOTH :: int
  SENSE_NORMAL :: int
  MOVEMENT_NORMAL :: int

definition isBasicWall :: "wallConsts \<Rightarrow> wall \<Rightarrow> bool" where
  "isBasicWall hostConst w \<longleftrightarrow>
     wall_door w = DOOR_NONE hostConst \<and>
     wall_dir w = DIRECTION_BOTH hostConst \<and>
     wall_light w = SENSE_NORMAL hostConst \<and>
     wall_sight w = SENSE_NORMAL hostConst \<and>
     wall_sound w = SENSE_NORMAL hostConst \<and>
     wall_move w = MOVEMENT_NORMAL hostConst \<and>
     \<not> wall_attenuation w \<and>
     wall_threshold_light w = None \<and>
     wall_threshold_sight w = None \<and>
     wall_threshold_sound w = None"

text \<open>
  The keys \<open>`${Math.round(c[0])},${Math.round(c[1])},${dir}`\<close> and the same for
  \<open>c[2], c[3]\<close>, with \<open>dir = Math.round(Math.atan2(|c[3] - c[1]|, |c[2] - c[0]|) * 30)\<close>.
  The string is determined by, and determines, the three integers. The code evaluates
  the arc tangent and the product in double precision: \<open>bucket dy dx\<close> stands for the
  integer \<open>Math.round(Math.atan2(dy, dx) * 30)\<close> it gets, and is a parameter of the
  model; \<open>dirBucket\<close> is that integer in exact arithmetic.
\<close>

type_synonym endpointKey = "int \<times> int \<times> int"

definition dirBucket :: "real \<Rightarrow> real \<Rightarrow> int" where
  "dirBucket dy dx = js_round (js_atan2 dy dx * 30)"

definition wallDir :: "(real \<Rightarrow> real \<Rightarrow> int) \<Rightarrow> wall \<Rightarrow> int" where
  "wallDir bucket w =
     (case wall_c w of (c0, c1, c2, c3) \<Rightarrow> bucket \<bar>c3 - c1\<bar> \<bar>c2 - c0\<bar>)"

definition keyA :: "(real \<Rightarrow> real \<Rightarrow> int) \<Rightarrow> wall \<Rightarrow> endpointKey" where
  "keyA bucket w =
     (case wall_c w of (c0, c1, c2, c3) \<Rightarrow> (js_round c0, js_round c1, wallDir bucket w))"

definition keyB :: "(real \<Rightarrow> real \<Rightarrow> int) \<Rightarrow> wall \<Rightarrow> endpointKey" where
  "keyB bucket w =
     (case wall_c w of (c0, c1, c2, c3) \<Rightarrow> (js_round c2, js_round c3, wallDir bucket w))"

text \<open>A \<open>Set\<close> of walls, kept as the list of its members in insertion order: \<open>set.add(w)\<close>.\<close>

definition setAdd :: "wall \<Rightarrow> wall list \<Rightarrow> wall list" where
  "setAdd w ws = (if w \<in> set ws then ws else ws @ [w])"

text \<open>
  \<open>wallMap[k] ??= new Set(); wallMap[k].add(w)\<close> on the object \<open>wallMap\<close>, kept as
  the list of its entries in insertion order (the order \<open>Object.entries\<close> gives for
  keys that are not array indices).
\<close>

fun mapAdd ::
  "endpointKey \<Rightarrow> wall \<Rightarrow> (endpointKey \<times> wall list) list \<Rightarrow> (endpointKey \<times> wall list) list" where
  "mapAdd k w [] = [(k, [w])]"
| "mapAdd k w ((k', ws) # m) = (if k' = k then (k', setAdd w ws) # m else (k', ws) # mapAdd k w m)"

definition buildWallMap ::
  "(real \<Rightarrow> real \<Rightarrow> int) \<Rightarrow> wall list \<Rightarrow> (endpointKey \<times> wall list) list" where
  "buildWallMap bucket walls =
     fold (\<lambda>w wallMap. mapAdd (keyB bucket w) w (mapAdd (keyA bucket w) w wallMap)) walls []"

text \<open>\<open>wallIdToAB\<close>: a later wall with the same id overwrites an earlier one.\<close>

definition buildWallIdToAB ::
  "(real \<Rightarrow> real \<Rightarrow> int) \<Rightarrow> wall list \<Rightarrow> string \<Rightarrow> (endpointKey \<times> endpointKey) option" where
  "buildWallIdToAB bucket walls =
     fold (\<lambda>w m. m(wall_id w \<mapsto> (keyA bucket w, keyB bucket w))) walls Map.empty"

definition wallsAt :: "(endpointKey \<times> wall list) list \<Rightarrow> endpointKey \<Rightarrow> wall list" where
  "wallsAt wallMap k = (case map_of wallMap k of None \<Rightarrow> [] | Some ws \<Rightarrow> ws)"

text \<open>
  \<open>wallMap[k].forEach(w => visit(w, set))\<close>, for a given \<open>visit\<close>: the state
  (visitedK, set) goes through the calls in order; \<open>None\<close> is "did not return".
\<close>

primrec visitEach ::
  "(wall \<Rightarrow> endpointKey list \<times> wall list \<Rightarrow> (endpointKey list \<times> wall list) option) \<Rightarrow>
   wall list \<Rightarrow> endpointKey list \<times> wall list \<Rightarrow> (endpointKey list \<times> wall list) option" where
  "visitEach visitFn [] st = Some st"
| "visitEach visitFn (w # ws) st =
     (case visitFn w st of None \<Rightarrow> None | Some st1 \<Rightarrow> visitEach visitFn ws st1)"

text \<open>
  The body of the closure \<open>visit(w, set)\<close>, with the function it calls on the walls of
  a newly visited key as a parameter.
\<close>

definition visitBody ::
  "(wall \<Rightarrow> endpointKey list \<times> wall list \<Rightarrow> (endpointKey list \<times> wall list) option) \<Rightarrow>
   (endpointKey \<times> wall list) list \<Rightarrow> (string \<Rightarrow> (endpointKey \<times> endpointKey) option) \<Rightarrow>
   wall \<Rightarrow> endpointKey list \<times> wall list \<Rightarrow> (endpointKey list \<times> wall list) option" where
  "visitBody visitFn wallMap wallIdToAB w st =
     (case st of (visitedK, wset) \<Rightarrow>
        (case wallIdToAB (wall_id w) of
           None \<Rightarrow> None
         | Some (a, b) \<Rightarrow>
             (case (if a \<in> set visitedK then Some (visitedK, setAdd w wset)
                    else visitEach visitFn (wallsAt wallMap a) (a # visitedK, setAdd w wset)) of
                None \<Rightarrow> None
              | Some (visitedK1, wset1) \<Rightarrow>
                  if b \<in> set visitedK1 then Some (visitedK1, wset1)
                  else visitEach visitFn (wallsAt wallMap b) (b # visitedK1, wset1))))"

text \<open>
  The recursive closure \<open>visit\<close> itself. The recursion is bounded by a fuel that each
  nested call uses up; \<open>None\<close> is "out of fuel".
\<close>

primrec visit ::
  "nat \<Rightarrow> (endpointKey \<times> wall list) list \<Rightarrow> (string \<Rightarrow> (endpointKey \<times> endpointKey) option) \<Rightarrow>
   wall \<Rightarrow> endpointKey list \<times> wall list \<Rightarrow> (endpointKey list \<times> wall list) option" where
  "visit 0 wallMap wallIdToAB = (\<lambda>w st. None)"
| "visit (Suc fuel) wallMap wallIdToAB =
     visitBody (visit fuel wallMap wallIdToAB) wallMap wallIdToAB"

text \<open>
  The loop over \<open>Object.entries(wallMap)\<close>, on the state (visitedK, wallSets): an entry
  whose key is visited is skipped, any other starts a new set.
\<close>

fun collectSets ::
  "nat \<Rightarrow> (endpointKey \<times> wall list) list \<Rightarrow> (string \<Rightarrow> (endpointKey \<times> endpointKey) option) \<Rightarrow>
   (endpointKey \<times> wall list) list \<Rightarrow> endpointKey list \<times> wall list list \<Rightarrow>
   (endpointKey list \<times> wall list list) option" where
  "collectSets fuel wallMap wallIdToAB [] st = Some st"
| "collectSets fuel wallMap wallIdToAB ((k, v) # entries) (visitedK, wallSets) =
     (if k \<in> set visitedK then collectSets fuel wallMap wallIdToAB entries (visitedK, wallSets)
      else
        (case visitEach (visit fuel wallMap wallIdToAB) v (visitedK, []) of
           None \<Rightarrow> None
         | Some (visitedK1, wset) \<Rightarrow>
             collectSets fuel wallMap wallIdToAB entries (visitedK1, wallSets @ [wset])))"

text \<open>\<open>Math.min(...xs)\<close> and \<open>Math.max(...xs)\<close> of a non-empty list (every set has a member).\<close>

fun minOf :: "real list \<Rightarrow> real" where
  "minOf (x # xs) = fold min xs x"

fun maxOf :: "real list \<Rightarrow> real" where
  "maxOf (x # xs) = fold max xs x"

definition boundingSegment :: "wall list \<Rightarrow> real \<times> real \<times> real \<times> real" where
  "boundingSegment wset =
     (let coords = map wall_c wset;
          x1 = minOf (map (\<lambda>(c0, c1, c2, c3). min c0 c2) coords);
          y1 = minOf (map (\<lambda>(c0, c1, c2, c3). min c1 c3) coords);
          x2 = maxOf (map (\<lambda>(c0, c1, c2, c3). max c0 c2) coords);
          y2 = maxOf (map (\<lambda>(c0, c1, c2, c3). max c1 c3) coords)
      in (x1, y1, x2, y2))"

text \<open>
  \<open>combineSceneWalls\<close>: the coordinates \<open>newWalls\<close> of the walls that replace the
  basic walls of the scene (the host then deletes the old documents and creates the new
  ones).
\<close>

definition combineSceneWalls ::
  "nat \<Rightarrow> wallConsts \<Rightarrow> (real \<Rightarrow> real \<Rightarrow> int) \<Rightarrow> wall list \<Rightarrow>
   (real \<times> real \<times> real \<times> real) list option" where
  "combineSceneWalls fuel hostConst bucket sceneWalls =
     (let walls = filter (isBasicWall hostConst) sceneWalls;
          wallMap = buildWallMap bucket walls;
          wallIdToAB = buildWallIdToAB bucket walls
      in case collectSets fuel wallMap wallIdToAB wallMap ([], []) of
           None \<Rightarrow> None
         | Some (visitedK, wallSets) \<Rightarrow> Some (map boundingSegment wallSets))"

section \<open>Segmentation: k-means\<close>

text \<open>
  \<open>kMeansImageSegmentation\<close> reads the \<open>ImageData\<close> of a canvas, whose data has four
  bytes per pixel, and builds \<open>pixels\<close> with
  \<open>pixels.push([data[i], data[i + 1], data[i + 2]])\<close> for \<open>i = 0, 4, 8, ...\<close>; every
  read is in range. A vector \<open>[r, g, b]\<close> is a triple of numbers.
\<close>

type_synonym vec = "real \<times> real \<times> real"




text \<open>
  The assignment of one pixel: \<open>minDist = Infinity\<close> (here \<open>None\<close>),
  \<open>closestCluster = 0\<close>, then for \<open>j = 0 .. k - 1\<close> the test \<open>dist < minDist\<close>.
  The number \<open>k\<close> is the number of centroids throughout: the seeding returns \<open>k\<close> of
  them and \<open>centroids.splice(0, k, ...newCentroids)\<close> replaces them all.
\<close>

definition closestStep ::
  "(vec \<Rightarrow> vec \<Rightarrow> real) \<Rightarrow> vec \<Rightarrow> vec list \<Rightarrow> nat \<Rightarrow> real option \<times> nat \<Rightarrow> real option \<times> nat" where
  "closestStep distOf pixel centroids j st =
     (case st of (minDist, closestCluster) \<Rightarrow>
        (let dj = distOf pixel (centroids ! j)
         in if (case minDist of None \<Rightarrow> True | Some m \<Rightarrow> dj < m) then (Some dj, j)
            else (minDist, closestCluster)))"

definition closestCluster :: "(vec \<Rightarrow> vec \<Rightarrow> real) \<Rightarrow> vec list \<Rightarrow> vec \<Rightarrow> nat" where
  "closestCluster distOf centroids pixel =
     snd (fold (closestStep distOf pixel centroids) [0..<length centroids] (None, 0))"

definition assignClusters :: "(vec \<Rightarrow> vec \<Rightarrow> real) \<Rightarrow> vec list \<Rightarrow> vec list \<Rightarrow> nat list" where
  "assignClusters distOf pixels centroids = map (closestCluster distOf centroids) pixels"

text \<open>
  The sums and counts: \<open>newCentroids[cluster][c] += pixel[c]\<close> and \<open>counts[cluster]++\<close>
  for every pixel, from \<open>k\<close> zero vectors and \<open>k\<close> zero counts. (The sums are sums of
  bytes, which doubles hold exactly.)
\<close>

definition vecAdd :: "vec \<Rightarrow> vec \<Rightarrow> vec" where
  "vecAdd v1 v2 =
     (case v1 of (a0, a1, a2) \<Rightarrow> (case v2 of (b0, b1, b2) \<Rightarrow> (a0 + b0, a1 + b1, a2 + b2)))"

definition sumClusters :: "vec list \<Rightarrow> nat list \<Rightarrow> nat \<Rightarrow> vec list \<times> nat list" where
  "sumClusters pixels clusters k =
     fold (\<lambda>(pixel, cluster) (newCentroids, counts).
             (newCentroids[cluster := vecAdd (newCentroids ! cluster) pixel],
              counts[cluster := counts ! cluster + 1]))
       (zip pixels clusters) (replicate k (0, 0, 0), replicate k 0)"

text \<open>
  \<open>if (counts[i] > 0) newCentroids[i][c] /= counts[i]\<close>: the quotient is computed in
  double precision, \<open>quotOf s n\<close> stands for the double the code gets for the sum \<open>s\<close>
  and the count \<open>n\<close>, and is a parameter of the model. A cluster with no pixel keeps the
  zero vector.
\<close>

definition averageCentroids :: "(real \<Rightarrow> nat \<Rightarrow> real) \<Rightarrow> vec list \<Rightarrow> nat list \<Rightarrow> vec list" where
  "averageCentroids quotOf totals counts =
     map (\<lambda>(s, n). if 0 < n then (case s of (s0, s1, s2) \<Rightarrow> (quotOf s0 n, quotOf s1 n, quotOf s2 n))
                    else s)
       (zip totals counts)"

text \<open>\<open>converged\<close>: no centroid has moved by more than the threshold.\<close>

definition hasConverged :: "(vec \<Rightarrow> vec \<Rightarrow> real) \<Rightarrow> real \<Rightarrow> vec list \<Rightarrow> vec list \<Rightarrow> bool" where
  "hasConverged distOf threshold centroids newCentroids =
     list_all (\<lambda>(c, n). \<not> threshold < distOf c n) (zip centroids newCentroids)"

text \<open>
  One iteration of the main loop: the clusters it assigns, the new centroids and
  \<open>converged\<close>. With no centroid and a pixel, \<open>newCentroids[0]\<close> is \<open>undefined\<close> and
  the code throws (\<open>None\<close>).
\<close>

definition kMeansStep ::
  "(vec \<Rightarrow> vec \<Rightarrow> real) \<Rightarrow> (real \<Rightarrow> nat \<Rightarrow> real) \<Rightarrow> real \<Rightarrow> vec list \<Rightarrow> vec list \<Rightarrow>
   (nat list \<times> vec list \<times> bool) option" where
  "kMeansStep distOf quotOf threshold pixels centroids =
     (if centroids = [] \<and> pixels \<noteq> [] then None
      else
        (let clusters = assignClusters distOf pixels centroids;
             (totals, counts) = sumClusters pixels clusters (length centroids);
             newCentroids = averageCentroids quotOf totals counts
         in Some (clusters, newCentroids, hasConverged distOf threshold centroids newCentroids)))"

text \<open>
  \<open>while (!converged && iterations < maxIterations)\<close>, by the number of iterations that
  are left; the result is the final centroids and clusters.
\<close>

primrec kMeansLoop ::
  "(vec \<Rightarrow> vec \<Rightarrow> real) \<Rightarrow> (real \<Rightarrow> nat \<Rightarrow> real) \<Rightarrow> real \<Rightarrow> vec list \<Rightarrow> nat \<Rightarrow>
   vec list \<Rightarrow> nat list \<Rightarrow> (vec list \<times> nat list) option" where
  "kMeansLoop distOf quotOf threshold pixels 0 = (\<lambda>centroids clusters. Some (centroids, clusters))"
| "kMeansLoop distOf quotOf threshold pixels (Suc left) =
     (\<lambda>centroids clusters.
        case kMeansStep distOf quotOf threshold pixels centroids of
          None \<Rightarrow> None
        | Some (clusters1, newCentroids, converged) \<Rightarrow>
            if converged then Some (newCentroids, clusters1)
            else kMeansLoop distOf quotOf threshold pixels left newCentroids clusters1)"

text \<open>
  The iterations the loop goes through, in order: for each, the centroids it starts
  with, the clusters it assigns and the centroids it computes.
\<close>

record iteration =
  it_centroids :: "vec list"
  it_clusters :: "nat list"
  it_newCentroids :: "vec list"

primrec kMeansIterations ::
  "(vec \<Rightarrow> vec \<Rightarrow> real) \<Rightarrow> (real \<Rightarrow> nat \<Rightarrow> real) \<Rightarrow> real \<Rightarrow> vec list \<Rightarrow> nat \<Rightarrow>
   vec list \<Rightarrow> iteration list" where
  "kMeansIterations distOf quotOf threshold pixels 0 = (\<lambda>centroids. [])"
| "kMeansIterations distOf quotOf threshold pixels (Suc left) =
     (\<lambda>centroids.
        case kMeansStep distOf quotOf threshold pixels centroids of
          None \<Rightarrow> []
        | Some (clusters1, newCentroids, converged) \<Rightarrow>
            \<lparr>it_centroids = centroids, it_clusters = clusters1, it_newCentroids = newCentroids\<rparr> #
            (if converged then []
             else kMeansIterations distOf quotOf threshold pixels left newCentroids))"

section \<open>Notions used to state the properties\<close>

text \<open>Channel \<open>c\<close> of an RGBA tuple.\<close>

definition chan4 :: "nat \<Rightarrow> nat \<times> nat \<times> nat \<times> nat \<Rightarrow> nat" where
  "chan4 c px =
     (case px of (r, g, b, a) \<Rightarrow> if c = 0 then r else if c = 1 then g else if c = 2 then b else a)"

text \<open>The RGBA tuple of pixel \<open>(x, y)\<close> of an image, and the luminance of a tuple.\<close>

definition getPixel :: "imageData \<Rightarrow> nat \<Rightarrow> nat \<Rightarrow> nat \<times> nat \<times> nat \<times> nat" where
  "getPixel img x y =
     (let i = (y * width img + x) * 4
      in (data img ! i, data img ! (i + 1), data img ! (i + 2), data img ! (i + 3)))"

definition pixelLuminance :: "nat \<times> nat \<times> nat \<times> nat \<Rightarrow> real" where
  "pixelLuminance px = (case px of (r, g, b, a) \<Rightarrow> luminance (real r) (real g) (real b))"

text \<open>
  The grid wall extractor as the specification words it: a sample outside the image is
  taken at the coordinates clamped to the valid range. Only the adjacent samples can
  lie outside: the row above at \<open>y = 0\<close> and the column to the left at \<open>x = 0\<close>.
\<close>

definition brightH_clamped :: "nat list \<Rightarrow> nat \<Rightarrow> nat \<Rightarrow> nat \<Rightarrow> nat \<Rightarrow> real \<Rightarrow> bool" where
  "brightH_clamped d w x y i threshold =
     (sampleBright d ((int y * int w + int x + int i) * 4) threshold \<or>
      sampleBright d ((max (int y - 1) 0 * int w + int x + int i) * 4) threshold)"

definition brightV_clamped :: "nat list \<Rightarrow> nat \<Rightarrow> nat \<Rightarrow> nat \<Rightarrow> nat \<Rightarrow> real \<Rightarrow> bool" where
  "brightV_clamped d w x y i threshold =
     (sampleBright d (((int y + int i) * int w + int x) * 4) threshold \<or>
      sampleBright d (((int y + int i) * int w + max (int x - 1) 0) * 4) threshold)"

definition tileScan_clamped ::
  "nat list \<Rightarrow> nat \<Rightarrow> nat \<Rightarrow> nat \<Rightarrow> nat \<Rightarrow> real \<Rightarrow> (nat \<times> nat) \<times> (nat \<times> nat)" where
  "tileScan_clamped d w x y grid threshold =
     fold (\<lambda>i (hs, vs). (runStep (brightH_clamped d w x y i threshold) hs,
                          runStep (brightV_clamped d w x y i threshold) vs))
       [0..<grid] ((0, 0), (0, 0))"

definition tileWalls_clamped :: "nat list \<Rightarrow> nat \<Rightarrow> nat \<Rightarrow> nat \<Rightarrow> nat \<Rightarrow> real \<Rightarrow> wallSegment list" where
  "tileWalls_clamped d w x y grid threshold =
     (case tileScan_clamped d w x y grid threshold of
        ((mhorizontal, horizontal), (mvertical, vertical)) \<Rightarrow>
          (if real grid / 2 < real mhorizontal then [(x, y, x + grid, y)] else []) @
          (if real grid / 2 < real mvertical then [(x, y, x, y + grid)] else []))"

definition identifyWalls_clamped :: "imageData \<Rightarrow> nat \<Rightarrow> real \<Rightarrow> wallSegment list option" where
  "identifyWalls_clamped canvas grid threshold =
     (if grid = 0 \<and> 0 < height canvas then None
      else Some (concat (map (\<lambda>y. concat (map (\<lambda>x. tileWalls_clamped (data canvas) (width canvas) x y grid threshold)
                                             (gridSteps (width canvas) grid)))
                         (gridSteps (height canvas) grid))))"

text \<open>
  A wall with the given id and coordinates and the default value of every attribute the
  wall merger looks at.
\<close>

definition basicWall :: "wallConsts \<Rightarrow> string \<Rightarrow> real \<times> real \<times> real \<times> real \<Rightarrow> wall" where
  "basicWall hostConst i cs =
     \<lparr>wall_id = i, wall_c = cs, wall_door = DOOR_NONE hostConst,
      wall_dir = DIRECTION_BOTH hostConst, wall_light = SENSE_NORMAL hostConst,
      wall_sight = SENSE_NORMAL hostConst, wall_sound = SENSE_NORMAL hostConst,
      wall_move = MOVEMENT_NORMAL hostConst, wall_attenuation = False,
      wall_threshold_light = None, wall_threshold_sight = None, wall_threshold_sound = None\<rparr>"

text \<open>The values the host gives its constants.\<close>

definition foundryConsts :: wallConsts where
  "foundryConsts = \<lparr>DOOR_NONE = 0, DIRECTION_BOTH = 0, SENSE_NORMAL = 20, MOVEMENT_NORMAL = 20\<rparr>"







section \<open>Properties of the store conversion\<close>

lemma toUint8Clamp_le: "toUint8Clamp v \<le> 255"
proof (cases v)
  case None
  then show ?thesis by (simp add: toUint8Clamp_def)
next
  case (Some r)
  show ?thesis
  proof (cases "r \<le> 0 \<or> 255 \<le> r")
    case True
    with Some show ?thesis by (auto simp: toUint8Clamp_def)
  next
    case False
    then have "\<lfloor>r\<rfloor> \<le> 254" by linarith
    then have "nat \<lfloor>r\<rfloor> \<le> 254" "nat (\<lfloor>r\<rfloor> + 1) \<le> 255" by linarith+
    with Some False show ?thesis
      by (simp add: toUint8Clamp_def Let_def)
  qed
qed

lemma toUint8Clamp_near:
  assumes "0 \<le> r" "r \<le> 255"
  shows "\<bar>real (toUint8Clamp (Some r)) - r\<bar> \<le> 1 / 2"
proof (cases "r \<le> 0 \<or> 255 \<le> r")
  case True
  with assms show ?thesis by (auto simp: toUint8Clamp_def)
next
  case False
  then have f: "0 \<le> \<lfloor>r\<rfloor>" by linarith
  have "of_int \<lfloor>r\<rfloor> \<le> r" "r < of_int \<lfloor>r\<rfloor> + 1" by linarith+
  with False f show ?thesis
    by (auto simp: toUint8Clamp_def Let_def)
qed

section \<open>Properties of the grayscale conversion\<close>

lemma fold_steps_length:
  "length (fold (\<lambda>i gs. gs[i div 4 := f i]) (map (\<lambda>j. 4 * j) [0..<m]) init) = length init"
  by (induction m) simp_all

lemma fold_steps_nth:
  "p < length init \<Longrightarrow>
   fold (\<lambda>i gs. gs[i div 4 := f i]) (map (\<lambda>j. 4 * j) [0..<m]) init ! p =
     (if p < m then f (4 * p) else init ! p)"
proof (induction m)
  case 0
  then show ?case by simp
next
  case (Suc m)
  then show ?case
    by (auto simp: fold_steps_length nth_list_update less_Suc_eq)
qed

lemma convertToGrayscale_length:
  "length (data (convertToGrayscale img)) = width img * height img"
  by (simp add: convertToGrayscale_def steps4_def fold_steps_length Let_def)

lemma convertToGrayscale_nth:
  assumes "length (data img) = 4 * width img * height img" "p < width img * height img"
  shows "data (convertToGrayscale img) ! p = toUint8Clamp (luminanceAt (data img) (4 * p))"
proof -
  have "(length (data img) + 3) div 4 = width img * height img"
    using assms(1) by simp
  with assms(2) show ?thesis
    by (simp add: convertToGrayscale_def steps4_def fold_steps_nth Let_def)
qed

lemma luminanceAt_in_range:
  "i + 2 < length d \<Longrightarrow>
   luminanceAt d i = Some (luminance (real (d ! i)) (real (d ! (i + 1))) (real (d ! (i + 2))))"
  by (simp add: luminanceAt_def js_get_def)

lemma luminance_bounds:
  assumes "0 \<le> r" "r \<le> 255" "0 \<le> g" "g \<le> 255" "0 \<le> b" "b \<le> 255"
  shows "0 \<le> luminance r g b" "luminance r g b \<le> 255"
  using assms by (simp_all add: luminance_def)

lemma convertToGrayscaleWith_length:
  "length (data (convertToGrayscaleWith lum img)) = width img * height img"
  by (simp add: convertToGrayscaleWith_def steps4_def fold_steps_length Let_def)

lemma convertToGrayscaleWith_nth:
  assumes "length (data img) = 4 * width img * height img" "p < width img * height img"
  shows "data (convertToGrayscaleWith lum img) ! p =
         toUint8Clamp (luminanceAtWith lum (data img) (4 * p))"
proof -
  have "(length (data img) + 3) div 4 = width img * height img"
    using assms(1) by simp
  with assms(2) show ?thesis
    by (simp add: convertToGrayscaleWith_def steps4_def fold_steps_nth Let_def)
qed

lemma luminanceAtWith_in_range:
  "i + 2 < length d \<Longrightarrow> luminanceAtWith lum d i = Some (lum (d ! i) (d ! (i + 1)) (d ! (i + 2)))"
  by (simp add: luminanceAtWith_def js_get_def)

text \<open>With the exact luminance for \<open>lum\<close> the parametrised function is the exact one.\<close>

lemma convertToGrayscale_exact:
  "convertToGrayscale img =
   convertToGrayscaleWith (\<lambda>r g b. luminance (real r) (real g) (real b)) img"
proof -
  have "luminanceAt d i = luminanceAtWith (\<lambda>r g b. luminance (real r) (real g) (real b)) d i"
    for d i
    by (simp add: luminanceAt_def luminanceAtWith_def js_get_def)
  then show ?thesis
    by (simp add: convertToGrayscale_def convertToGrayscaleWith_def)
qed

text \<open>
  The exact luminance of three bytes is a number of thousandths, so a value within
  1/4000 of it is stored as an integer at most 1/2 away from the exact luminance.
\<close>

lemma luminance_thousandths:
  "luminance (real r) (real g) (real b) = real (299 * r + 587 * g + 114 * b) / 1000"
  by (simp add: luminance_def)

lemma toUint8Clamp_near_thousandths:
  assumes close: "\<bar>v - real m / 1000\<bar> \<le> 1 / 4000" and m: "m \<le> 255000"
  shows "\<bar>real (toUint8Clamp (Some v)) - real m / 1000\<bar> \<le> 1 / 2"
proof (cases "v \<le> 0 \<or> 255 \<le> v")
  case True
  then show ?thesis
  proof
    assume "v \<le> 0"
    then have "toUint8Clamp (Some v) = 0" by (simp add: toUint8Clamp_def)
    with close \<open>v \<le> 0\<close> show ?thesis by simp
  next
    assume "255 \<le> v"
    then have "toUint8Clamp (Some v) = 255" by (simp add: toUint8Clamp_def)
    moreover have "real m / 1000 \<le> 255" using m by simp
    ultimately show ?thesis using close \<open>255 \<le> v\<close> by simp
  qed
next
  case False
  then have "\<bar>real (toUint8Clamp (Some v)) - v\<bar> \<le> 1 / 2"
    by (intro toUint8Clamp_near) simp_all
  with close have "\<bar>real (toUint8Clamp (Some v)) - real m / 1000\<bar> \<le> 1 / 2 + 1 / 4000"
    by linarith
  then have "\<bar>1000 * real (toUint8Clamp (Some v)) - real m\<bar> \<le> 500 + 1 / 4"
    by (simp add: abs_le_iff field_simps)
  then have "\<bar>real_of_int (1000 * int (toUint8Clamp (Some v)) - int m)\<bar> \<le> 500 + 1 / 4"
    by simp
  then have "\<bar>1000 * int (toUint8Clamp (Some v)) - int m\<bar> \<le> 500"
    by linarith
  then have "\<bar>real_of_int (1000 * int (toUint8Clamp (Some v)) - int m)\<bar> \<le> 500"
    by linarith
  then show ?thesis
    by (simp add: abs_le_iff field_simps)
qed

text \<open>
  C7 (as amended). For an RGBA buffer of width w and height h, the result of
  \<open>convertToGrayscale\<close> has exactly w * h entries, each in 0..255, and the entry of
  pixel p is the luminance 0.299 R + 0.587 G + 0.114 B of that pixel rounded to a nearest
  integer (it is at most 1/2 away from the exact luminance): the byte array rounds on
  store, it does not truncate. This holds whatever double the code computes for the
  luminance, as long as it is within 1/4000 of the exact value (the rounding error of
  the three products and two sums is far smaller).
\<close>

theorem convertToGrayscale_rounds_to_nearest:
  assumes "\<forall>r g b. r \<le> 255 \<and> g \<le> 255 \<and> b \<le> 255 \<longrightarrow>
             \<bar>lum r g b - luminance (real r) (real g) (real b)\<bar> \<le> 1 / 4000"
    and "length (data img) = 4 * width img * height img"
    and "\<forall>v \<in> set (data img). v \<le> 255"
    and "p < width img * height img"
  shows "length (data (convertToGrayscaleWith lum img)) = width img * height img \<and>
         data (convertToGrayscaleWith lum img) ! p \<le> 255 \<and>
         \<bar>real (data (convertToGrayscaleWith lum img) ! p) -
            luminance (real (data img ! (4 * p))) (real (data img ! (4 * p + 1)))
              (real (data img ! (4 * p + 2)))\<bar> \<le> 1 / 2"
proof -
  let ?d = "data img"
  let ?r = "?d ! (4 * p)" and ?g = "?d ! (4 * p + 1)" and ?b = "?d ! (4 * p + 2)"
  have in_range: "4 * p + 2 < length ?d" "4 * p + 1 < length ?d" "4 * p < length ?d"
    using assms(2,4) by (simp_all add: mult.assoc)
  have bytes: "?r \<le> 255" "?g \<le> 255" "?b \<le> 255"
    using assms(3) in_range by (simp_all add: nth_mem del: One_nat_def)
  have close: "\<bar>lum ?r ?g ?b - real (299 * ?r + 587 * ?g + 114 * ?b) / 1000\<bar> \<le> 1 / 4000"
    using assms(1) bytes unfolding luminance_thousandths by blast
  have m: "299 * ?r + 587 * ?g + 114 * ?b \<le> 255000"
    using bytes by linarith
  have out: "data (convertToGrayscaleWith lum img) ! p = toUint8Clamp (Some (lum ?r ?g ?b))"
    using convertToGrayscaleWith_nth [OF assms(2,4)] luminanceAtWith_in_range [OF in_range(1)]
    by simp
  show ?thesis
    using toUint8Clamp_near_thousandths [OF close m]
    by (simp only: out convertToGrayscaleWith_length toUint8Clamp_le luminance_thousandths simp_thms)
qed

theorem convertToGrayscale_rounds_to_nearest_witness:
  "length (data \<lparr>data = [2, 0, 0, 255, 0, 80, 110, 255], width = 2, height = 1\<rparr>) = 4 * 2 * 1 \<and>
   data (convertToGrayscaleWith (\<lambda>r g b. luminance (real r) (real g) (real b))
           \<lparr>data = [2, 0, 0, 255, 0, 80, 110, 255], width = 2, height = 1\<rparr>) ! 1 \<le> 255 \<and>
   \<bar>real (data (convertToGrayscaleWith (\<lambda>r g b. luminance (real r) (real g) (real b))
                  \<lparr>data = [2, 0, 0, 255, 0, 80, 110, 255], width = 2, height = 1\<rparr>) ! 1) -
      luminance 0 80 110\<bar> \<le> 1 / 2"
  using convertToGrayscale_rounds_to_nearest
    [of "\<lambda>r g b. luminance (real r) (real g) (real b)"
        "\<lparr>data = [2, 0, 0, 255, 0, 80, 110, 255], width = 2, height = 1\<rparr>" 1]
  by simp

theorem convertToGrayscale_truncation_counterexample:
  "data (convertToGrayscale \<lparr>data = [2, 0, 0, 255], width = 1, height = 1\<rparr>) = [1] \<and>
   nat \<lfloor>luminance 2 0 0\<rfloor> = 0"
  by (simp add: convertToGrayscale_def steps4_def luminanceAt_def js_get_def
      luminance_def toUint8Clamp_def)


section \<open>Properties of the raster loops\<close>

lemma for_pixels_linear:
  "for_pixels w h body s = fold (\<lambda>p. body (p mod w) (p div w)) [0..<h * w] s"
proof (induction h arbitrary: s)
  case 0
  show ?case by (simp add: for_pixels_def)
next
  case (Suc h)
  have "[0..<h * w + w] = [0..<h * w] @ [h * w..<h * w + w]"
    by (rule upt_add_eq_append) simp
  moreover have "map (\<lambda>x. x + h * w) [0..<w] = [h * w..<w + h * w]"
    by (rule map_add_upt)
  ultimately have split: "[0..<Suc h * w] = [0..<h * w] @ map (\<lambda>x. x + h * w) [0..<w]"
    by (simp only: mult_Suc add.commute [of w "h * w"])
  have row: "fold (\<lambda>p. body (p mod w) (p div w)) (map (\<lambda>x. x + h * w) [0..<w]) t =
             fold (\<lambda>x. body x h) [0..<w] t" for t
    unfolding fold_map by (rule fold_cong) (auto simp: comp_def)
  show ?case
    using Suc.IH unfolding split by (simp add: for_pixels_def row)
qed

lemma put4_length: "length (put4 i px out) = length out"
  by (simp add: put4_def split: prod.splits)

lemma put4_nth:
  assumes "q < length out"
  shows "put4 (p * 4) px out ! q = (if q div 4 = p then chan4 (q mod 4) px else out ! q)"
proof (cases px)
  case (fields r g b a)
  consider "q div 4 \<noteq> p" | "q = p * 4" | "q = p * 4 + 1" | "q = p * 4 + 2" | "q = p * 4 + 3"
    by arith
  then show ?thesis
  proof cases
    case 1
    then have "q \<noteq> p * 4" "q \<noteq> p * 4 + 1" "q \<noteq> p * 4 + 2" "q \<noteq> p * 4 + 3"
      by arith+
    with 1 fields show ?thesis by (simp add: put4_def)
  next
    case 2
    then have "q div 4 = p" "q mod 4 = 0" by arith+
    with 2 assms fields show ?thesis by (simp add: put4_def chan4_def)
  next
    case 3
    then have "q div 4 = p" "q mod 4 = 1" by arith+
    with 3 assms fields show ?thesis by (simp add: put4_def chan4_def)
  next
    case 4
    then have "q div 4 = p" "q mod 4 = 2" by arith+
    with 4 assms fields show ?thesis by (simp add: put4_def chan4_def)
  next
    case 5
    then have "q div 4 = p" "q mod 4 = 3" by arith+
    with 5 assms fields show ?thesis by (simp add: put4_def chan4_def)
  qed
qed

lemma fold_put4_length:
  "length (fold (\<lambda>p. put4 (p * 4) (F p)) ps out) = length out"
  by (induction ps arbitrary: out) (simp_all add: put4_length)

lemma fold_put4_nth:
  "q < length out \<Longrightarrow>
   fold (\<lambda>p. put4 (p * 4) (F p)) [0..<n] out ! q =
     (if q div 4 < n then chan4 (q mod 4) (F (q div 4)) else out ! q)"
proof (induction n)
  case 0
  then show ?case by simp
next
  case (Suc n)
  then show ?case
    by (auto simp: fold_put4_length put4_nth less_Suc_eq)
qed

lemma for_pixels_put4_nth:
  assumes "q < length out"
  shows "for_pixels w h (\<lambda>x y. put4 ((y * w + x) * 4) (f x y)) out ! q =
         (if q div 4 < h * w then chan4 (q mod 4) (f (q div 4 mod w) (q div 4 div w)) else out ! q)"
proof -
  have "for_pixels w h (\<lambda>x y. put4 ((y * w + x) * 4) (f x y)) out =
        fold (\<lambda>p. put4 (p * 4) (f (p mod w) (p div w))) [0..<h * w] out"
    unfolding for_pixels_linear
    by (rule fold_cong) (auto simp: )
  then show ?thesis using assms by (simp add: fold_put4_nth)
qed


lemma for_pixels_put4_pixel:
  assumes "x < w" "y < h" "c < 4" "(y * w + x) * 4 + 3 < length out"
  shows "for_pixels w h (\<lambda>x y. put4 ((y * w + x) * 4) (f x y)) out ! ((y * w + x) * 4 + c) =
         chan4 c (f x y)"
proof -
  have "y * w + x < h * w"
  proof -
    have "y * w + x < y * w + w" using assms(1) by simp
    also have "\<dots> = Suc y * w" by simp
    also have "\<dots> \<le> h * w" using assms(2) by (intro mult_le_mono1) simp
    finally show ?thesis .
  qed
  moreover have "(n * 4 + c) div 4 = n" "(n * 4 + c) mod 4 = c" for n
    using assms(3) by simp_all
  ultimately show ?thesis
    using assms by (simp add: for_pixels_put4_nth del: distrib_right_numeral)
qed


lemma fold_put1_length:
  "length (fold (\<lambda>p out. out[p := F p]) ps out) = length out"
  by (induction ps arbitrary: out) simp_all

lemma fold_put1_nth:
  "q < length out \<Longrightarrow>
   fold (\<lambda>p out. out[p := F p]) [0..<n] out ! q = (if q < n then F q else out ! q)"
  by (induction n) (auto simp: fold_put1_length nth_list_update less_Suc_eq)

lemma for_pixels_put1:
  "for_pixels w h (\<lambda>x y out. out[y * w + x := f x y]) out =
   fold (\<lambda>p out. out[p := f (p mod w) (p div w)]) [0..<h * w] out"
  unfolding for_pixels_linear by (rule fold_cong) auto

lemma for_pixels_put1_length:
  "length (for_pixels w h (\<lambda>x y out. out[y * w + x := f x y]) out) = length out"
  by (simp only: for_pixels_put1 fold_put1_length)

lemma for_pixels_put1_nth:
  assumes "x < w" "y < h" "length out = w * h"
  shows "for_pixels w h (\<lambda>x y out. out[y * w + x := f x y]) out ! (y * w + x) = f x y"
proof -
  have "y * w + x < Suc y * w" using assms(1) by simp
  also have "\<dots> \<le> h * w" using assms(2) by (intro mult_le_mono1) simp
  finally have lt: "y * w + x < h * w" .
  then have "y * w + x < length out" using assms(3) by (simp add: mult.commute)
  then show ?thesis
    using lt assms(1) by (simp add: for_pixels_put1 fold_put1_nth)
qed


section \<open>Properties of the median filter\<close>

lemma storeByte_id: "v \<le> 255 \<Longrightarrow> storeByte v = v"
  by (simp add: storeByte_def toUint8Clamp_def)

lemma for_pixels_put4_length:
  "length (for_pixels w h (\<lambda>x y. put4 (g x y) (f x y)) out) = length out"
proof -
  have inner: "length (fold (\<lambda>x. put4 (g x y) (f x y)) xs t) = length t" for y xs t
    by (induction xs arbitrary: t) (simp_all add: put4_length)
  have "length (fold (\<lambda>y. fold (\<lambda>x. put4 (g x y) (f x y)) [0..<w]) ys t) = length t" for ys t
    by (induction ys arbitrary: t) (simp_all add: inner)
  then show ?thesis by (simp add: for_pixels_def)
qed

lemma kernelIdx_centre: "x < w \<Longrightarrow> y < h \<Longrightarrow> kernelIdx w h x y 0 0 = (y * w + x) * 4"
proof -
  assume "x < w" "y < h"
  then have "clampCoord (int x + 0) w = int x" "clampCoord (int y + 0) h = int y"
    by (simp_all add: clampCoord_def)
  then have "kernelIdx w h x y 0 0 = nat (int ((y * w + x) * 4))"
    by (simp add: kernelIdx_def)
  then show ?thesis by (simp only: nat_int)
qed

lemma applyMedianFilter_kernel1_data:
  assumes len: "length (data img) = 4 * width img * height img"
    and bytes: "\<forall>v \<in> set (data img). v \<le> 255"
  shows "data (applyMedianFilter img 1) = data img"
proof (rule nth_equalityI)
  show "length (data (applyMedianFilter img 1)) = length (data img)"
    by (simp add: applyMedianFilter_def Let_def for_pixels_put4_length)
next
  fix q assume "q < length (data (applyMedianFilter img 1))"
  then have q: "q < length (data img)"
    by (simp add: applyMedianFilter_def Let_def for_pixels_put4_length)
  let ?w = "width img" and ?h = "height img" and ?d = "data img"
  let ?p = "q div 4"
  have p: "?p < ?h * ?w" using q len by (simp add: mult.commute mult.left_commute)
  then have w0: "0 < ?w" by (cases "?w") simp_all
  have x: "?p mod ?w < ?w" using w0 by simp
  have y: "?p div ?w < ?h" using p w0 by (simp add: less_mult_imp_div_less)
  have idx: "kernelIdx ?w ?h (?p mod ?w) (?p div ?w) 0 0 = ?p * 4"
    using kernelIdx_centre [OF x y] by simp
  have c: "?p * 4 + q mod 4 = q" by simp
  have out: "data (applyMedianFilter img 1) ! q =
      chan4 (q mod 4)
        (storeByte (?d ! (?p * 4)), storeByte (?d ! (?p * 4 + 1)),
         storeByte (?d ! (?p * 4 + 2)), storeByte (?d ! (?p * 4 + 3)))"
    using q p idx
    by (simp add: applyMedianFilter_def Let_def for_pixels_put4_nth gatherPixel_def
        del: distrib_right_numeral)
  have sb: "storeByte (?d ! q) = ?d ! q"
    using bytes q by (simp add: storeByte_id)
  consider "q mod 4 = 0" | "q mod 4 = 1" | "q mod 4 = 2" | "q mod 4 = 3"
    by arith
  then show "data (applyMedianFilter img 1) ! q = data img ! q"
  proof cases
    case 1
    with c have "?p * 4 = q" by simp
    with 1 sb show ?thesis unfolding out by (simp add: chan4_def)
  next
    case 2
    with c have "?p * 4 + 1 = q" by simp
    with 2 sb show ?thesis unfolding out by (simp add: chan4_def)
  next
    case 3
    with c have "?p * 4 + 2 = q" by simp
    with 3 sb show ?thesis unfolding out by (simp add: chan4_def)
  next
    case 4
    with c have "?p * 4 + 3 = q" by simp
    with 4 sb show ?thesis unfolding out by (simp add: chan4_def)
  qed
qed

text \<open>
  C8. For every RGBA buffer (4 * width * height channel bytes), the median filter with
  \<open>kernelSize = 1\<close> is the identity: the R, G, B and A channels of every pixel are
  unchanged.
\<close>

theorem applyMedianFilter_kernel1_identity:
  assumes "length (data img) = 4 * width img * height img"
    and "\<forall>v \<in> set (data img). v \<le> 255"
  shows "applyMedianFilter img 1 = img"
  using applyMedianFilter_kernel1_data [OF assms]
  by (simp add: applyMedianFilter_def Let_def)

theorem applyMedianFilter_kernel1_identity_witness:
  "length (data \<lparr>data = [10, 20, 30, 255, 200, 0, 7, 0], width = 2, height = 1\<rparr>) = 4 * 2 * 1 \<and>
   applyMedianFilter \<lparr>data = [10, 20, 30, 255, 200, 0, 7, 0], width = 2, height = 1\<rparr> 1 =
     \<lparr>data = [10, 20, 30, 255, 200, 0, 7, 0], width = 2, height = 1\<rparr>"
  using applyMedianFilter_kernel1_identity
    [of "\<lparr>data = [10, 20, 30, 255, 200, 0, 7, 0], width = 2, height = 1\<rparr>"]
  by simp

section \<open>Properties of the brighten filter\<close>

lemma chan4_tuple: "(chan4 0 px, chan4 1 px, chan4 2 px, chan4 3 px) = px"
  by (cases px) (simp add: chan4_def)

lemma applyBrightenFilter_pixel:
  assumes len: "length (data img) = 4 * width img * height img"
    and x: "x < width img" and y: "y < height img"
  shows "getPixel (applyBrightenFilter img k) x y =
     (if list_ex (\<lambda>ky. list_ex (\<lambda>kx. positive (luminanceAt (data img)
              (kernelIdx (width img) (height img) x y kx ky)))
             [- int ((if k mod 2 = 0 then k + 1 else k) div 2)..int ((if k mod 2 = 0 then k + 1 else k) div 2)])
          [- int ((if k mod 2 = 0 then k + 1 else k) div 2)..int ((if k mod 2 = 0 then k + 1 else k) div 2)]
      then (255, 255, 255, 255) else (0, 0, 0, 0))"
proof -
  let ?w = "width img" and ?h = "height img"
  let ?half = "(if k mod 2 = 0 then k + 1 else k) div 2"
  let ?f = "\<lambda>x y. if list_ex (\<lambda>ky. list_ex (\<lambda>kx. positive (luminanceAt (data img)
              (kernelIdx ?w ?h x y kx ky))) [- int ?half..int ?half]) [- int ?half..int ?half]
      then (255, 255, 255, 255) else (0, 0, 0, 0::nat)"
  have put_if: "(if b then put4 i u out else put4 i v out) = put4 i (if b then u else v) out"
    for b i u v and out :: "nat list"
    by simp
  have out: "data (applyBrightenFilter img k) =
      for_pixels ?w ?h (\<lambda>x y. put4 ((y * ?w + x) * 4) (?f x y)) (replicate (length (data img)) 0)"
    unfolding applyBrightenFilter_def Let_def put_if by simp
  have "y * ?w + x < ?h * ?w"
  proof -
    have "y * ?w + x < Suc y * ?w" using x by simp
    also have "\<dots> \<le> ?h * ?w" using y by (intro mult_le_mono1) simp
    finally show ?thesis .
  qed
  then have "(y * ?w + x) * 4 + 3 < 4 * (?h * ?w)"
    by arith
  also have "4 * (?h * ?w) = length (data img)"
    unfolding len by (simp only: mult.assoc mult.commute [of ?h])
  finally have bound: "(y * ?w + x) * 4 + 3 < length (replicate (length (data img)) (0::nat))"
    by (simp only: length_replicate)
  have ch: "data (applyBrightenFilter img k) ! ((y * ?w + x) * 4 + c) = chan4 c (?f x y)"
    if "c < 4" for c
    unfolding out by (rule for_pixels_put4_pixel [where f = ?f, OF x y that bound])
  have w: "width (applyBrightenFilter img k) = ?w"
    by (simp add: applyBrightenFilter_def Let_def)
  have c: "(0::nat) < 4" "(1::nat) < 4" "(2::nat) < 4" "(3::nat) < 4"
    by simp_all
  let ?out = "data (applyBrightenFilter img k)" and ?i = "(y * ?w + x) * 4"
  have "getPixel (applyBrightenFilter img k) x y =
        (?out ! (?i + 0), ?out ! (?i + 1), ?out ! (?i + 2), ?out ! (?i + 3))"
    by (simp only: getPixel_def w Let_def add_0_right)
  also have "\<dots> = (chan4 0 (?f x y), chan4 1 (?f x y), chan4 2 (?f x y), chan4 3 (?f x y))"
    by (simp only: ch [OF c(1)] ch [OF c(2)] ch [OF c(3)] ch [OF c(4)])
  finally show ?thesis
    unfolding chan4_tuple .
qed

lemma clampCoord_range: "0 < n \<Longrightarrow> 0 \<le> clampCoord v n \<and> clampCoord v n < int n"
  by (simp add: clampCoord_def)

lemma kernelIdx_nat:
  assumes "0 < w" "0 < h"
  shows "kernelIdx w h x y kx ky =
         (nat (clampCoord (int y + ky) h) * w + nat (clampCoord (int x + kx) w)) * 4"
proof -
  let ?X = "nat (clampCoord (int x + kx) w)" and ?Y = "nat (clampCoord (int y + ky) h)"
  have "clampCoord (int x + kx) w = int ?X" "clampCoord (int y + ky) h = int ?Y"
    using clampCoord_range [OF assms(1)] clampCoord_range [OF assms(2)] by simp_all
  then have "kernelIdx w h x y kx ky = nat (int ((?Y * w + ?X) * 4))"
    by (simp add: kernelIdx_def)
  then show ?thesis by (simp only: nat_int)
qed

lemma pixel_index_bound:
  fixes x y w h :: nat
  assumes "x < w" "y < h"
  shows "(y * w + x) * 4 + 3 < 4 * w * h"
proof -
  have "y * w + x < Suc y * w" using assms(1) by simp
  also have "\<dots> \<le> h * w" using assms(2) by (intro mult_le_mono1) simp
  finally have "(y * w + x) * 4 + 3 < 4 * (h * w)" by arith
  then show ?thesis by (simp only: mult.assoc mult.commute [of h])
qed

lemma kernelIdx_luminance:
  assumes len: "length (data img) = 4 * width img * height img"
    and x: "x < width img" and y: "y < height img"
  shows "luminanceAt (data img) (kernelIdx (width img) (height img) x y kx ky) =
     Some (pixelLuminance (getPixel img (nat (clampCoord (int x + kx) (width img)))
                                        (nat (clampCoord (int y + ky) (height img)))))"
proof -
  let ?w = "width img" and ?h = "height img"
  let ?X = "nat (clampCoord (int x + kx) ?w)" and ?Y = "nat (clampCoord (int y + ky) ?h)"
  have w: "0 < ?w" and h: "0 < ?h" using x y by simp_all
  have X: "?X < ?w" and Y: "?Y < ?h"
    using clampCoord_range [OF w, of "int x + kx"] clampCoord_range [OF h, of "int y + ky"]
    by linarith+
  have idx: "kernelIdx ?w ?h x y kx ky = (?Y * ?w + ?X) * 4"
    by (rule kernelIdx_nat [OF w h])
  have "(?Y * ?w + ?X) * 4 + 3 < length (data img)"
    unfolding len by (rule pixel_index_bound [OF X Y])
  then have "(?Y * ?w + ?X) * 4 + 2 < length (data img)" by simp
  from luminanceAt_in_range [OF this] show ?thesis
    unfolding idx by (simp add: pixelLuminance_def getPixel_def Let_def)
qed

lemma list_ex_upto: "list_ex P [- int n..int n] \<longleftrightarrow> (\<exists>k. \<bar>k\<bar> \<le> int n \<and> P k)"
  by (auto simp: list_ex_iff abs_le_iff)

text \<open>
  C10. For every RGBA buffer and odd \<open>kernelSize\<close>, \<open>applyBrightenFilter\<close> sets
  the output pixel at \<open>(x, y)\<close> to \<open>(255, 255, 255, 255)\<close> if and only if some pixel
  of the border-clamped \<open>kernelSize \<times> kernelSize\<close> neighbourhood of \<open>(x, y)\<close>
  (offsets of absolute value at most \<open>kernelSize div 2\<close> in each direction) has luminance
  \<open>0.299 R + 0.587 G + 0.114 B\<close> strictly greater than 0, and to \<open>(0, 0, 0, 0)\<close>
  otherwise.
\<close>

theorem applyBrightenFilter_dilates:
  assumes "length (data img) = 4 * width img * height img"
    and "odd kernelSize" and "x < width img" and "y < height img"
  shows "getPixel (applyBrightenFilter img kernelSize) x y =
     (if \<exists>ky kx. \<bar>ky\<bar> \<le> int (kernelSize div 2) \<and> \<bar>kx\<bar> \<le> int (kernelSize div 2) \<and>
            0 < pixelLuminance (getPixel img (nat (clampCoord (int x + kx) (width img)))
                                             (nat (clampCoord (int y + ky) (height img))))
      then (255, 255, 255, 255) else (0, 0, 0, 0))"
proof -
  have k: "(if kernelSize mod 2 = 0 then kernelSize + 1 else kernelSize) = kernelSize"
    using assms(2) by (simp add: odd_iff_mod_2_eq_one)
  show ?thesis
    unfolding applyBrightenFilter_pixel [OF assms(1,3,4)] k list_ex_upto
      kernelIdx_luminance [OF assms(1,3,4)]
    by (simp add: positive_def)
qed

theorem applyBrightenFilter_dilates_witness:
  "length (data \<lparr>data = [0, 0, 0, 255, 0, 0, 0, 255, 0, 0, 0, 255, 0, 0, 1, 255],
                  width = 2, height = 2\<rparr>) = 4 * 2 * 2 \<and>
   odd (3::nat) \<and>
   getPixel (applyBrightenFilter
      \<lparr>data = [0, 0, 0, 255, 0, 0, 0, 255, 0, 0, 0, 255, 0, 0, 1, 255],
       width = 2, height = 2\<rparr> 3) 0 0 = (255, 255, 255, 255)"
proof -
  let ?img = "\<lparr>data = [0, 0, 0, 255, 0, 0, 0, 255, 0, 0, 0, 255, 0, 0, 1, 255],
               width = 2, height = 2\<rparr>"
  have "\<bar>1::int\<bar> \<le> int (3 div 2) \<and> \<bar>1::int\<bar> \<le> int (3 div 2) \<and>
        0 < pixelLuminance (getPixel ?img (nat (clampCoord (int 0 + 1) (width ?img)))
                                          (nat (clampCoord (int 0 + 1) (height ?img))))"
    by (simp add: clampCoord_def getPixel_def pixelLuminance_def luminance_def)
  then have "\<exists>ky kx. \<bar>ky\<bar> \<le> int (3 div 2) \<and> \<bar>kx\<bar> \<le> int (3 div 2) \<and>
        0 < pixelLuminance (getPixel ?img (nat (clampCoord (int 0 + kx) (width ?img)))
                                          (nat (clampCoord (int 0 + ky) (height ?img))))"
    by blast
  then show ?thesis
    using applyBrightenFilter_dilates [of ?img 3 0 0] by simp
qed

section \<open>Properties of the inside/outside separation\<close>

lemma repaintPixel_length: "length (repaintPixel oc i d) = length d"
  by (simp add: repaintPixel_def put4_length)

lemma fold_repaint_length: "length (fold (repaintPixel oc) is d) = length d"
  by (induction "is" arbitrary: d) (simp_all add: repaintPixel_length)

lemma repaintPixel_nth:
  assumes "q < length d"
  shows "q div 4 \<noteq> p \<Longrightarrow> repaintPixel oc (p * 4) d ! q = d ! q"
    and "q div 4 = p \<Longrightarrow> repaintPixel oc (p * 4) d ! q = chan4 (q mod 4) (0, 0, 0, 255) \<or>
                          repaintPixel oc (p * 4) d ! q = chan4 (q mod 4) (255, 255, 255, 255)"
  using assms by (simp_all add: repaintPixel_def put4_nth)

lemma fold_repaint_pixel:
  assumes "p * 4 + 3 < length d" "p < m"
  shows "(\<forall>c<4. fold (repaintPixel oc) (map (\<lambda>j. 4 * j) [0..<m]) d ! (p * 4 + c) = chan4 c (0, 0, 0, 255)) \<or>
         (\<forall>c<4. fold (repaintPixel oc) (map (\<lambda>j. 4 * j) [0..<m]) d ! (p * 4 + c) = chan4 c (255, 255, 255, 255))"
  using assms(2)
proof (induction m)
  case 0
  then show ?case by simp
next
  case (Suc m)
  let ?d = "fold (repaintPixel oc) (map (\<lambda>j. 4 * j) [0..<m]) d"
  have step: "fold (repaintPixel oc) (map (\<lambda>j. 4 * j) [0..<Suc m]) d = repaintPixel oc (m * 4) ?d"
    by (simp add: mult.commute)
  have len: "length ?d = length d" by (rule fold_repaint_length)
  have dm: "(p * 4 + c) div 4 = p" "(p * 4 + c) mod 4 = c" "p * 4 + c < length ?d" if "c < 4" for c
    using that assms(1) len by simp_all
  show ?case
  proof (cases "p = m")
    case True
    show ?thesis
    proof (cases "colorAt ?d (int (m * 4)) \<in> set oc")
      case black: True
      have "\<forall>c<4. repaintPixel oc (m * 4) ?d ! (p * 4 + c) = chan4 c (0, 0, 0, 255)"
        using True black dm by (simp add: repaintPixel_def put4_nth)
      then show ?thesis unfolding step by blast
    next
      case white: False
      have "\<forall>c<4. repaintPixel oc (m * 4) ?d ! (p * 4 + c) = chan4 c (255, 255, 255, 255)"
        using True white dm by (simp add: repaintPixel_def put4_nth)
      then show ?thesis unfolding step by blast
    qed
  next
    case False
    then have "p < m" using Suc.prems by simp
    moreover have "repaintPixel oc (m * 4) ?d ! (p * 4 + c) = ?d ! (p * 4 + c)" if "c < 4" for c
      using False dm [OF that] by (simp add: repaintPixel_def put4_nth)
    ultimately show ?thesis
      using Suc.IH unfolding step by simp
  qed
qed

text \<open>
  C9. After \<open>separateInside\<close> has run on a non-empty buffer, every pixel of the output
  is exactly \<open>(0, 0, 0, 255)\<close> or exactly \<open>(255, 255, 255, 255)\<close>; in particular the
  alpha channel of every pixel is 255, whatever it was in the input.
\<close>

theorem separateInside_black_or_white:
  assumes "length (data img) = 4 * width img * height img"
    and "x < width img" and "y < height img"
  shows "(getPixel (separateInside img threshold) x y = (0, 0, 0, 255) \<or>
          getPixel (separateInside img threshold) x y = (255, 255, 255, 255)) \<and>
         chan4 3 (getPixel (separateInside img threshold) x y) = 255"
proof -
  let ?w = "width img" and ?h = "height img" and ?d = "data img"
  let ?p = "y * ?w + x"
  obtain oc where out: "data (separateInside img threshold) =
      fold (repaintPixel oc) (map (\<lambda>j. 4 * j) [0..<(length ?d + 3) div 4]) ?d"
    by (simp add: separateInside_def Let_def steps4_def)
  let ?out = "data (separateInside img threshold)"
  have w: "width (separateInside img threshold) = ?w"
    by (simp add: separateInside_def Let_def)
  have bound: "?p * 4 + 3 < length ?d"
    unfolding assms(1) by (rule pixel_index_bound [OF assms(2,3)])
  then have p: "?p < (length ?d + 3) div 4" by arith
  have c: "(0::nat) < 4" "(1::nat) < 4" "(2::nat) < 4" "(3::nat) < 4"
    by simp_all
  have px: "getPixel (separateInside img threshold) x y =
        (?out ! (?p * 4 + 0), ?out ! (?p * 4 + 1), ?out ! (?p * 4 + 2), ?out ! (?p * 4 + 3))"
    by (simp only: getPixel_def w Let_def add_0_right)
  from fold_repaint_pixel [OF bound p, of oc]
  have "getPixel (separateInside img threshold) x y = (0, 0, 0, 255) \<or>
        getPixel (separateInside img threshold) x y = (255, 255, 255, 255)"
  proof
    assume "\<forall>c<4. fold (repaintPixel oc) (map (\<lambda>j. 4 * j) [0..<(length ?d + 3) div 4]) ?d ! (?p * 4 + c) =
              chan4 c (0, 0, 0, 255)"
    then have "\<forall>c<4. ?out ! (?p * 4 + c) = chan4 c (0, 0, 0, 255)"
      by (simp only: out)
    with c have "getPixel (separateInside img threshold) x y =
        (chan4 0 (0, 0, 0, 255), chan4 1 (0, 0, 0, 255), chan4 2 (0, 0, 0, 255), chan4 3 (0, 0, 0, 255))"
      unfolding px by blast
    then show ?thesis unfolding chan4_tuple by (rule disjI1)
  next
    assume "\<forall>c<4. fold (repaintPixel oc) (map (\<lambda>j. 4 * j) [0..<(length ?d + 3) div 4]) ?d ! (?p * 4 + c) =
              chan4 c (255, 255, 255, 255)"
    then have "\<forall>c<4. ?out ! (?p * 4 + c) = chan4 c (255, 255, 255, 255)"
      by (simp only: out)
    with c have "getPixel (separateInside img threshold) x y =
        (chan4 0 (255, 255, 255, 255), chan4 1 (255, 255, 255, 255),
         chan4 2 (255, 255, 255, 255), chan4 3 (255, 255, 255, 255))"
      unfolding px by blast
    then show ?thesis unfolding chan4_tuple by (rule disjI2)
  qed
  then show ?thesis by (auto simp: chan4_def)
qed

theorem separateInside_black_or_white_witness:
  "length (data \<lparr>data = [1, 2, 3, 0, 1, 2, 3, 9, 7, 7, 7, 7, 1, 2, 3, 4], width = 2, height = 2\<rparr>) =
     4 * 2 * 2 \<and>
   (getPixel (separateInside
      \<lparr>data = [1, 2, 3, 0, 1, 2, 3, 9, 7, 7, 7, 7, 1, 2, 3, 4], width = 2, height = 2\<rparr> (4 / 10)) 0 1 =
     (0, 0, 0, 255) \<or>
    getPixel (separateInside
      \<lparr>data = [1, 2, 3, 0, 1, 2, 3, 9, 7, 7, 7, 7, 1, 2, 3, 4], width = 2, height = 2\<rparr> (4 / 10)) 0 1 =
     (255, 255, 255, 255)) \<and>
   chan4 3 (getPixel (separateInside
      \<lparr>data = [1, 2, 3, 0, 1, 2, 3, 9, 7, 7, 7, 7, 1, 2, 3, 4], width = 2, height = 2\<rparr> (4 / 10)) 0 1) =
     255"
  using separateInside_black_or_white
    [of "\<lparr>data = [1, 2, 3, 0, 1, 2, 3, 9, 7, 7, 7, 7, 1, 2, 3, 4], width = 2, height = 2\<rparr>" 0 1 "4 / 10"]
  by simp


section \<open>Properties of the grid wall extractor\<close>

lemma fold_pair_split:
  "fold (\<lambda>i (hs, vs). (f i hs, g i vs)) xs (a, b) = (fold f xs a, fold g xs b)"
  by (induction xs arbitrary: a b) simp_all

lemma tileScan_split:
  "tileScan d w x y grid t =
     (fold runStep (map (\<lambda>i. brightH d w x y i t) [0..<grid]) (0, 0),
      fold runStep (map (\<lambda>i. brightV d w x y i t) [0..<grid]) (0, 0))"
  by (simp add: tileScan_def fold_pair_split fold_map comp_def)

lemma runStep_all_False:
  "\<forall>b \<in> set bs. \<not> b \<Longrightarrow> fst (fold runStep bs (m, r)) = m"
  by (induction bs arbitrary: r) auto

lemma runStep_mono: "m \<le> fst (fold runStep bs (m, r))"
proof (induction bs arbitrary: m r)
  case Nil
  show ?case by simp
next
  case (Cons b bs)
  show ?case
  proof (cases b)
    case True
    have "m \<le> max m (r + 1)" by simp
    also have "\<dots> \<le> fst (fold runStep bs (max m (r + 1), r + 1))" by (rule Cons.IH)
    finally show ?thesis using True by simp
  next
    case False
    then show ?thesis using Cons.IH [of m 0] by simp
  qed
qed

lemma runStep_block:
  "fold runStep (replicate n True) (m, r) = (if n = 0 then m else max m (r + n), r + n)"
proof (induction n arbitrary: m r)
  case 0
  show ?case by simp
next
  case (Suc n)
  have "fold runStep (replicate (Suc n) True) (m, r) =
        fold runStep (replicate n True) (max m (r + 1), r + 1)"
    by (simp only: replicate_Suc fold_Cons comp_apply runStep.simps if_True)
  then show ?case
    unfolding Suc.IH by (auto simp: max_def)
qed

lemma runStep_contains_run:
  assumes "bs = pre @ replicate n True @ post"
  shows "n \<le> fst (fold runStep bs (0, 0))"
proof (cases "n = 0")
  case True
  then show ?thesis by simp
next
  case False
  obtain m r where pre: "fold runStep pre (0, 0) = (m, r)" by (cases "fold runStep pre (0, 0)")
  have "n \<le> max m (r + n)" by simp
  also have "\<dots> \<le> fst (fold runStep post (max m (r + n), r + n))" by (rule runStep_mono)
  finally have "n \<le> fst (fold runStep post (fold runStep (replicate n True) (m, r)))"
    using False by (simp only: runStep_block if_False)
  then show ?thesis
    by (simp only: assms fold_append comp_apply pre)
qed

lemma upt_block:
  assumes "s + n \<le> g"
  shows "[0..<g] = [0..<s] @ [s..<s + n] @ [s + n..<g]"
proof -
  obtain k where g: "g = s + n + k"
    using assms by (auto simp: le_iff_add)
  have "[0..<s + n + k] = [0..<s + n] @ [s + n..<s + n + k]"
    by (rule upt_add_eq_append) simp
  moreover have "[0..<s + n] = [0..<s] @ [s..<s + n]"
    by (rule upt_add_eq_append) simp
  ultimately show ?thesis unfolding g by simp
qed

lemma run_of_bright_samples:
  assumes "s + n \<le> g" "\<forall>i. s \<le> i \<and> i < s + n \<longrightarrow> P i"
  shows "n \<le> fst (fold runStep (map P [0..<g]) (0, 0))"
proof -
  have "map P [s..<s + n] = replicate n True"
    using assms(2) by (intro replicate_eqI) auto
  then have "map P [0..<g] = map P [0..<s] @ replicate n True @ map P [s + n..<g]"
    by (simp add: upt_block [OF assms(1)] del: upt_Suc)
  then show ?thesis by (rule runStep_contains_run)
qed

lemma gridSteps_mem:
  assumes "0 < grid"
  shows "v \<in> set (gridSteps limit grid) \<longleftrightarrow> grid dvd v \<and> v < limit"
proof
  assume "v \<in> set (gridSteps limit grid)"
  then have "\<exists>j. v = j * grid \<and> j < (limit + grid - 1) div grid"
    unfolding gridSteps_def by auto
  then obtain j where j: "v = j * grid" "j < (limit + grid - 1) div grid"
    by blast
  have "j * grid < limit"
  proof (rule ccontr)
    assume "\<not> j * grid < limit"
    then have "limit + grid - 1 < (j + 1) * grid" using assms by simp
    then have "(limit + grid - 1) div grid < j + 1"
      using assms by (simp add: div_less_iff_less_mult)
    with j(2) show False by simp
  qed
  with j(1) show "grid dvd v \<and> v < limit" by simp
next
  assume "grid dvd v \<and> v < limit"
  then obtain j where j: "v = j * grid" "j * grid < limit" by (auto simp: dvd_def mult.commute)
  have "(j + 1) * grid \<le> limit + grid - 1" using j(2) assms by simp
  then have "j + 1 \<le> (limit + grid - 1) div grid"
    using assms by (simp add: less_eq_div_iff_mult_less_eq)
  then show "v \<in> set (gridSteps limit grid)"
    using j(1) by (auto simp: gridSteps_def)
qed

lemma tileWalls_alt:
  "tileWalls d w x y grid t =
     (if real grid / 2 < real (fst (fold runStep (map (\<lambda>i. brightH d w x y i t) [0..<grid]) (0, 0)))
      then [(x, y, x + grid, y)] else []) @
     (if real grid / 2 < real (fst (fold runStep (map (\<lambda>i. brightV d w x y i t) [0..<grid]) (0, 0)))
      then [(x, y, x, y + grid)] else [])"
  by (simp add: tileWalls_def tileScan_split split: prod.splits)

lemma sampleBright_in_range:
  "k < length d \<Longrightarrow> sampleBright d (int k) t \<longleftrightarrow> t \<le> real (d ! k)"
  by (simp add: sampleBright_def js_byte_def)

lemma identifyWalls_horizontal_run:
  assumes grid: "0 < grid"
    and len: "length (data img) = 4 * width img * height img"
    and tile: "grid dvd x" "grid dvd y" "y < height img"
    and run: "s + n \<le> grid" "x + s + n \<le> width img" "grid < 2 * n"
    and bright: "\<forall>i. s \<le> i \<and> i < s + n \<longrightarrow>
                   threshold \<le> real (data img ! ((y * width img + (x + i)) * 4))"
  shows "\<exists>walls. identifyWalls img grid threshold = Some walls \<and> (x, y, x + grid, y) \<in> set walls"
proof -
  let ?d = "data img" and ?w = "width img" and ?h = "height img"
  have n: "0 < n" using run(3) grid by simp
  then have x: "x < ?w" using run(2) by simp
  have "brightH ?d ?w x y i threshold" if i: "s \<le> i \<and> i < s + n" for i
  proof -
    have "x + i < ?w" using i run(2) by simp
    from pixel_index_bound [OF this tile(3)]
    have "(y * ?w + (x + i)) * 4 < length ?d" unfolding len by simp
    then have "sampleBright ?d (int ((y * ?w + (x + i)) * 4)) threshold"
      using bright i by (simp only: sampleBright_in_range)
    moreover have "int ((y * ?w + (x + i)) * 4) = (int y * int ?w + int x + int i) * 4"
      by simp
    ultimately have "sampleBright ?d ((int y * int ?w + int x + int i) * 4) threshold"
      by (simp only:)
    then show ?thesis unfolding brightH_def Let_def by (rule disjI1)
  qed
  then have "n \<le> fst (fold runStep (map (\<lambda>i. brightH ?d ?w x y i threshold) [0..<grid]) (0, 0))"
    using run(1) by (intro run_of_bright_samples) auto
  then have "real grid / 2 < real (fst (fold runStep (map (\<lambda>i. brightH ?d ?w x y i threshold) [0..<grid]) (0, 0)))"
    using run(3) by simp
  then have "(x, y, x + grid, y) \<in> set (tileWalls ?d ?w x y grid threshold)"
    by (simp add: tileWalls_alt)
  moreover have "x \<in> set (gridSteps ?w grid)" "y \<in> set (gridSteps ?h grid)"
    using tile x by (simp_all add: gridSteps_mem [OF grid])
  ultimately show ?thesis
    using grid by (auto simp: identifyWalls_def)
qed

lemma identifyWalls_no_bright_sample:
  assumes grid: "0 < grid"
    and dark: "\<forall>k<length (data img). k mod 4 = 0 \<longrightarrow> real (data img ! k) < threshold"
  shows "identifyWalls img grid threshold = Some []"
proof -
  let ?d = "data img"
  have no: "\<not> sampleBright ?d (j * 4) threshold" for j
  proof (cases "0 \<le> j * 4 \<and> j * 4 < int (length ?d)")
    case True
    then have eq: "nat (j * 4) = nat j * 4"
      by (simp add: nat_mult_distrib)
    have m: "nat (j * 4) mod 4 = 0"
      unfolding eq by simp
    have lt: "nat (j * 4) < length ?d"
      using True by linarith
    have "real (?d ! nat (j * 4)) < threshold"
      by (rule dark [rule_format, OF lt m])
    with True show ?thesis by (simp add: sampleBright_def js_byte_def)
  next
    case False
    then show ?thesis by (auto simp: sampleBright_def js_byte_def)
  qed
  have "\<not> brightH ?d w x y i threshold" "\<not> brightV ?d w x y i threshold" for w x y i
    unfolding brightH_def brightV_def Let_def using no by blast+
  then have "fst (fold runStep (map (\<lambda>i. brightH ?d w x y i threshold) [0..<grid]) (0, 0)) = 0"
    "fst (fold runStep (map (\<lambda>i. brightV ?d w x y i threshold) [0..<grid]) (0, 0)) = 0" for w x y
    by (simp_all add: runStep_all_False)
  then have "tileWalls ?d w x y grid threshold = []" for w x y
    by (simp add: tileWalls_alt)
  then show ?thesis
    using grid by (simp add: identifyWalls_def)
qed

text \<open>
  C2 (as amended). For a positive cell size: when the top row of the tile at \<open>(x, y)\<close>
  holds a run of \<open>n\<close> consecutive bright samples (red channel at least the threshold),
  inside the image, with \<open>n > grid / 2\<close>, \<open>identifyWalls\<close> emits the horizontal
  segment \<open>(x, y, x + grid, y)\<close> along the tile's top edge; and on a buffer with no
  sample at or above the threshold it emits no segment at all. A run of exactly
  \<open>grid / 2\<close> samples is not enough: the comparison is strict.
\<close>

theorem identifyWalls_long_run_or_dark:
  assumes "0 < grid"
  shows "(length (data img) = 4 * width img * height img \<and>
          grid dvd x \<and> grid dvd y \<and> y < height img \<and>
          s + n \<le> grid \<and> x + s + n \<le> width img \<and> real grid / 2 < real n \<and>
          (\<forall>i. s \<le> i \<and> i < s + n \<longrightarrow>
                threshold \<le> real (data img ! ((y * width img + (x + i)) * 4))) \<longrightarrow>
          (\<exists>walls. identifyWalls img grid threshold = Some walls \<and>
                   (x, y, x + grid, y) \<in> set walls)) \<and>
         ((\<forall>k<length (data img). k mod 4 = 0 \<longrightarrow> real (data img ! k) < threshold) \<longrightarrow>
          identifyWalls img grid threshold = Some [])"
proof (intro conjI impI)
  assume a: "length (data img) = 4 * width img * height img \<and>
          grid dvd x \<and> grid dvd y \<and> y < height img \<and>
          s + n \<le> grid \<and> x + s + n \<le> width img \<and> real grid / 2 < real n \<and>
          (\<forall>i. s \<le> i \<and> i < s + n \<longrightarrow>
                threshold \<le> real (data img ! ((y * width img + (x + i)) * 4)))"
  then have "grid < 2 * n" by linarith
  with a assms show "\<exists>walls. identifyWalls img grid threshold = Some walls \<and>
                   (x, y, x + grid, y) \<in> set walls"
    by (intro identifyWalls_horizontal_run) blast+
next
  assume "\<forall>k<length (data img). k mod 4 = 0 \<longrightarrow> real (data img ! k) < threshold"
  with assms show "identifyWalls img grid threshold = Some []"
    by (rule identifyWalls_no_bright_sample)
qed

theorem identifyWalls_long_run_or_dark_witness:
  "(\<exists>walls. identifyWalls
      \<lparr>data = [255, 0, 0, 255, 255, 0, 0, 255, 0, 0, 0, 255,
               0, 0, 0, 255, 0, 0, 0, 255, 0, 0, 0, 255], width = 3, height = 2\<rparr> 3 100 = Some walls \<and>
      (0, 0, 0 + 3, 0) \<in> set walls) \<and>
   identifyWalls \<lparr>data = [99, 200, 200, 255], width = 1, height = 1\<rparr> 1 100 = Some []"
proof -
  let ?img = "\<lparr>data = [255, 0, 0, 255, 255, 0, 0, 255, 0, 0, 0, 255,
               0, 0, 0, 255, 0, 0, 0, 255, 0, 0, 0, 255], width = 3, height = 2\<rparr>"
  let ?dark = "\<lparr>data = [99, 200, 200, 255], width = 1, height = 1\<rparr>"
  have run: "\<forall>i. 0 \<le> i \<and> i < 0 + 2 \<longrightarrow>
               (100::real) \<le> real (data ?img ! ((0 * width ?img + (0 + i)) * 4))"
  proof (intro allI impI)
    fix i :: nat
    assume "0 \<le> i \<and> i < 0 + 2"
    then have "i = 0 \<or> i = 1" by arith
    then show "(100::real) \<le> real (data ?img ! ((0 * width ?img + (0 + i)) * 4))"
      by (elim disjE) simp_all
  qed
  have dark: "\<forall>k<length (data ?dark). k mod 4 = 0 \<longrightarrow> real (data ?dark ! k) < 100"
  proof (intro allI impI)
    fix k :: nat
    assume "k < length (data ?dark)" "k mod 4 = 0"
    then have "k = 0" by simp
    then show "real (data ?dark ! k) < 100" by simp
  qed
  have g: "(0::nat) < 3" "(0::nat) < 1" by simp_all
  from identifyWalls_long_run_or_dark [OF g(1), of ?img 0 0 0 2 100] run
  have "\<exists>walls. identifyWalls ?img 3 100 = Some walls \<and> (0, 0, 0 + 3, 0) \<in> set walls"
    by simp
  moreover from identifyWalls_long_run_or_dark [OF g(2), of ?dark 0 0 0 0 100] dark
  have "identifyWalls ?dark 1 100 = Some []"
    by blast
  ultimately show ?thesis by blast
qed

theorem identifyWalls_half_run_counterexample:
  "(100::real) \<le> real (data \<lparr>data = [255, 0, 0, 255, 0, 0, 0, 255, 0, 0, 0, 255, 0, 0, 0, 255],
                               width = 2, height = 2\<rparr> ! ((0 * 2 + (0 + 0)) * 4)) \<and>
   real (2::nat) / 2 \<le> real (1::nat) \<and>
   identifyWalls \<lparr>data = [255, 0, 0, 255, 0, 0, 0, 255, 0, 0, 0, 255, 0, 0, 0, 255],
                  width = 2, height = 2\<rparr> 2 100 = Some []"
proof -
  have "identifyWalls \<lparr>data = [255, 0, 0, 255, 0, 0, 0, 255, 0, 0, 0, 255, 0, 0, 0, 255],
                  width = 2, height = 2\<rparr> 2 100 = Some []"
    by code_simp
  then show ?thesis by simp
qed

subsection \<open>Samples outside the image\<close>

text \<open>
  The flat index of the sample left of column 0, in a row below the first, passes the
  guard \<open>index >= 0 && index < data.length\<close>: it is the index of the last pixel of the
  row above.
\<close>

lemma left_of_column_0_is_end_of_previous_row:
  assumes "0 < w" "0 < row"
  shows "(int row * int w + (int 0 - 1)) * 4 = int (((row - 1) * w + (w - 1)) * 4)"
proof -
  obtain r where r: "row = Suc r" using assms(2) by (cases row) simp_all
  obtain v where v: "w = Suc v" using assms(1) by (cases w) simp_all
  show ?thesis by (simp add: v r algebra_simps)
qed

text \<open>
  C6. The claim is that a sample outside the image (the row above a tile's top row at
  \<open>y = 0\<close>, the column left of a tile's left column at \<open>x = 0\<close>) is never replaced by
  a pixel at unrelated coordinates. The code breaks it at \<open>x = 0\<close>: on the 2 x 2 image
  whose only bright pixel is \<open>(1, 0)\<close>, with cell size 1 and threshold 100, the test of
  the left column of the tile at \<open>(0, 1)\<close> reads the pixel \<open>(1, 0)\<close> at the end of the
  row above and the wall \<open>(0, 1, 0, 2)\<close> is emitted, which the clamped reading of the
  specification does not emit.
\<close>

theorem identifyWalls_left_column_wraps:
  "brightV [0, 0, 0, 255, 255, 0, 0, 255, 0, 0, 0, 255, 0, 0, 0, 255] 2 0 1 0 100 \<and>
   \<not> brightV_clamped [0, 0, 0, 255, 255, 0, 0, 255, 0, 0, 0, 255, 0, 0, 0, 255] 2 0 1 0 100 \<and>
   identifyWalls \<lparr>data = [0, 0, 0, 255, 255, 0, 0, 255, 0, 0, 0, 255, 0, 0, 0, 255],
                  width = 2, height = 2\<rparr> 1 100 =
     Some [(1, 0, 2, 0), (1, 0, 1, 1), (0, 1, 0, 2), (1, 1, 2, 1)] \<and>
   identifyWalls_clamped \<lparr>data = [0, 0, 0, 255, 255, 0, 0, 255, 0, 0, 0, 255, 0, 0, 0, 255],
                          width = 2, height = 2\<rparr> 1 100 =
     Some [(1, 0, 2, 0), (1, 0, 1, 1), (1, 1, 2, 1)]"
  by code_simp

section \<open>Properties of the Gaussian blur\<close>

lemma gaussHalfSize_eq: "gaussHalfSize sigma = max 1 \<lceil>sigma * 3\<rceil>"
  by (simp add: gaussHalfSize_def gaussKernelSize_def max_def)

lemma gaussKernelSize_eq: "gaussKernelSize sigma = 2 * gaussHalfSize sigma + 1"
  by (simp add: gaussHalfSize_eq gaussKernelSize_def max_def)



lemma gaussRawKernel_length: "length (gaussRawKernel sigma) = nat (gaussKernelSize sigma)"
  by (simp add: gaussRawKernel_def)




lemma gaussKernel_length: "length (gaussKernel sigma) = nat (2 * gaussHalfSize sigma + 1)"
  by (simp add: gaussKernel_def Let_def gaussRawKernel_length gaussKernelSize_eq)

lemma weightedSum_acc:
  "fold (\<lambda>(v, k) sum. case sum of None \<Rightarrow> None
                          | Some s \<Rightarrow> (case v of None \<Rightarrow> None | Some r \<Rightarrow> Some (s + r * k)))
     (map (\<lambda>k. (Some (f k), g k)) ks) (Some a) =
   Some (a + (\<Sum>k\<leftarrow>ks. f k * g k))"
  by (induction ks arbitrary: a) (simp_all add: add.assoc)

lemma weightedSum_defined:
  "weightedSum (map (\<lambda>k. (Some (f k), g k)) ks) = Some (\<Sum>k\<leftarrow>ks. f k * g k)"
  by (simp add: weightedSum_def weightedSum_acc)

lemma blurHorizontal_length: "length (blurHorizontal kern r d w h) = w * h"
  by (simp add: blurHorizontal_def for_pixels_put1_length)

lemma blurVertical_length: "length (blurVertical kern r t w h) = w * h"
  by (simp add: blurVertical_def for_pixels_put1_length)

lemma clamped_column:
  assumes "x < w" "y < h"
  shows "nat (int y * int w + clampCoord (int x + k) w) = y * w + nat (clampCoord (int x + k) w)"
    and "y * w + nat (clampCoord (int x + k) w) < w * h"
proof -
  have w: "0 < w" using assms(1) by simp
  from clampCoord_range [OF w, of "int x + k"]
  have c: "0 \<le> clampCoord (int x + k) w" "nat (clampCoord (int x + k) w) < w" by linarith+
  have "int y * int w + clampCoord (int x + k) w = int (y * w + nat (clampCoord (int x + k) w))"
    using c(1) by simp
  then show "nat (int y * int w + clampCoord (int x + k) w) = y * w + nat (clampCoord (int x + k) w)"
    by (simp only: nat_int)
  have "y * w + nat (clampCoord (int x + k) w) < Suc y * w" using c(2) by simp
  also have "\<dots> \<le> h * w" using assms(2) by (intro mult_le_mono1) simp
  finally show "y * w + nat (clampCoord (int x + k) w) < w * h" by (simp add: mult.commute)
qed

lemma clamped_row:
  assumes "x < w" "y < h"
  shows "nat (clampCoord (int y + k) h * int w + int x) = nat (clampCoord (int y + k) h) * w + x"
    and "nat (clampCoord (int y + k) h) * w + x < w * h"
proof -
  have h: "0 < h" using assms(2) by simp
  from clampCoord_range [OF h, of "int y + k"]
  have c: "0 \<le> clampCoord (int y + k) h" "nat (clampCoord (int y + k) h) < h" by linarith+
  have "clampCoord (int y + k) h * int w + int x = int (nat (clampCoord (int y + k) h) * w + x)"
    using c(1) by simp
  then show "nat (clampCoord (int y + k) h * int w + int x) = nat (clampCoord (int y + k) h) * w + x"
    by (simp only: nat_int)
  have "nat (clampCoord (int y + k) h) * w + x < Suc (nat (clampCoord (int y + k) h)) * w"
    using assms(1) by simp
  also have "\<dots> \<le> h * w" using c(2) by (intro mult_le_mono1) simp
  finally show "nat (clampCoord (int y + k) h) * w + x < w * h" by (simp add: mult.commute)
qed

lemma blurHorizontal_nth:
  assumes "length d = w * h" "x < w" "y < h"
  shows "blurHorizontal kern r d w h ! (y * w + x) =
         toUint8Clamp (Some (\<Sum>k\<leftarrow>[- r..r].
            real (d ! (y * w + nat (clampCoord (int x + k) w))) * kern ! nat (k + r)))"
proof -
  have "js_get d (nat (int y * int w + clampCoord (int x + k) w)) =
        Some (real (d ! (y * w + nat (clampCoord (int x + k) w))))" for k
    using clamped_column [OF assms(2,3), of k] assms(1) by (simp add: js_get_def)
  then show ?thesis
    unfolding blurHorizontal_def
    by (simp add: for_pixels_put1_nth [OF assms(2,3)] weightedSum_defined)
qed

lemma blurVertical_nth:
  assumes "length t = w * h" "x < w" "y < h"
  shows "blurVertical kern r t w h ! (y * w + x) =
         toUint8Clamp (Some (\<Sum>k\<leftarrow>[- r..r].
            real (t ! (nat (clampCoord (int y + k) h) * w + x)) * kern ! nat (k + r)))"
proof -
  have "js_get t (nat (clampCoord (int y + k) h * int w + int x)) =
        Some (real (t ! (nat (clampCoord (int y + k) h) * w + x)))" for k
    using clamped_row [OF assms(2,3), of k] assms(1) by (simp add: js_get_def)
  then show ?thesis
    unfolding blurVertical_def
    by (simp add: for_pixels_put1_nth [OF assms(2,3)] weightedSum_defined)
qed

subsection \<open>The blur in the arithmetic of the code\<close>






lemma weightedSumWith_defined:
  "weightedSumWith A (map (\<lambda>k. (Some (f k), g k)) ks) =
   fold (\<lambda>k sum. js_add A sum (js_mul A (js_num A (int (f k))) (g k))) ks (js_num A 0)"
  by (simp add: weightedSumWith_def fold_map comp_def)

lemma blurHorizontalWith_length: "length (blurHorizontalWith A kern r d w h) = w * h"
  by (simp add: blurHorizontalWith_def for_pixels_put1_length)

lemma blurVerticalWith_length: "length (blurVerticalWith A kern r d w h) = w * h"
  by (simp add: blurVerticalWith_def for_pixels_put1_length)

lemma blurHorizontalWith_nth:
  assumes "length d = w * h" "x < w" "y < h"
  shows "blurHorizontalWith A kern r d w h ! (y * w + x) =
         js_toUint8 A
           (fold (\<lambda>k sum. js_add A sum
                    (js_mul A (js_num A (int (d ! (y * w + nat (clampCoord (int x + k) w)))))
                       (kern ! nat (k + r))))
              [- r..r] (js_num A 0))"
proof -
  have "js_byte d (int y * int w + clampCoord (int x + k) w) =
        Some (d ! (y * w + nat (clampCoord (int x + k) w)))" for k
  proof -
    have w: "0 < w" using assms(2) by simp
    from clampCoord_range [OF w, of "int x + k"]
    have c: "0 \<le> clampCoord (int x + k) w" by linarith
    have e: "int y * int w + clampCoord (int x + k) w =
             int (y * w + nat (clampCoord (int x + k) w))"
      using c by simp
    show ?thesis
      unfolding e js_byte_def using clamped_column(2) [OF assms(2,3), of k] assms(1)
      by (simp only: nat_int of_nat_less_iff of_nat_0_le_iff simp_thms if_True)
  qed
  then show ?thesis
    unfolding blurHorizontalWith_def
    by (simp add: for_pixels_put1_nth [OF assms(2,3)] weightedSumWith_defined)
qed

lemma blurVerticalWith_nth:
  assumes "length t = w * h" "x < w" "y < h"
  shows "blurVerticalWith A kern r t w h ! (y * w + x) =
         js_toUint8 A
           (fold (\<lambda>k sum. js_add A sum
                    (js_mul A (js_num A (int (t ! (nat (clampCoord (int y + k) h) * w + x))))
                       (kern ! nat (k + r))))
              [- r..r] (js_num A 0))"
proof -
  have "js_byte t (clampCoord (int y + k) h * int w + int x) =
        Some (t ! (nat (clampCoord (int y + k) h) * w + x))" for k
  proof -
    have h: "0 < h" using assms(3) by simp
    from clampCoord_range [OF h, of "int y + k"]
    have c: "0 \<le> clampCoord (int y + k) h" by linarith
    have e: "clampCoord (int y + k) h * int w + int x =
             int (nat (clampCoord (int y + k) h) * w + x)"
      using c by simp
    show ?thesis
      unfolding e js_byte_def using clamped_row(2) [OF assms(2,3), of k] assms(1)
      by (simp only: nat_int of_nat_less_iff of_nat_0_le_iff simp_thms if_True)
  qed
  then show ?thesis
    unfolding blurVerticalWith_def
    by (simp add: for_pixels_put1_nth [OF assms(2,3)] weightedSumWith_defined)
qed

lemma gaussHalfSizeWith_exact: "gaussHalfSizeWith exactArith sigma = gaussHalfSize sigma"
  by (simp add: gaussHalfSizeWith_def gaussKernelSizeWith_def gaussHalfSize_def
      gaussKernelSize_def exactArith_def)

lemma gaussRawKernelWith_exact: "gaussRawKernelWith exactArith sigma = gaussRawKernel sigma"
  by (simp add: gaussRawKernelWith_def gaussRawKernel_def gaussHalfSizeWith_exact Let_def)
     (simp add: exactArith_def gaussKernelSizeWith_def gaussKernelSize_def)

lemma gaussKernelWith_exact: "gaussKernelWith exactArith sigma = gaussKernel sigma"
  by (simp add: gaussKernelWith_def gaussKernel_def gaussRawKernelWith_exact kernelSumWith_def Let_def)
     (simp add: exactArith_def)

text \<open>
  In exact arithmetic the model with the operations as parameters is the model on the
  reals above.
\<close>

lemma weighted_sum_exact:
  "fold (\<lambda>k sum. js_add exactArith sum (js_mul exactArith (js_num exactArith (int (f k))) (g k)))
     ks b = b + (\<Sum>k\<leftarrow>ks. real (f k) * g k)"
  by (induction ks arbitrary: b) (simp_all add: exactArith_def)

lemma weighted_store_exact:
  "js_toUint8 exactArith
     (fold (\<lambda>k sum. js_add exactArith sum (js_mul exactArith (js_num exactArith (int (f k))) (g k)))
        ks (js_num exactArith 0)) = toUint8Clamp (Some (\<Sum>k\<leftarrow>ks. real (f k) * g k))"
  unfolding weighted_sum_exact by (simp add: exactArith_def)

lemma raster_point:
  assumes "p < (w::nat) * h"
  shows "p mod w < w" "p div w < h" "p div w * w + p mod w = p"
proof -
  have w: "0 < w" using assms by (cases w) simp_all
  then show "p mod w < w" by simp
  show "p div w < h" using assms w by (simp add: less_mult_imp_div_less mult.commute)
  show "p div w * w + p mod w = p" by simp
qed

lemma blurHorizontalWith_exact:
  assumes "length d = w * h"
  shows "blurHorizontalWith exactArith kern r d w h = blurHorizontal kern r d w h"
proof (rule nth_equalityI)
  show "length (blurHorizontalWith exactArith kern r d w h) = length (blurHorizontal kern r d w h)"
    by (simp only: blurHorizontalWith_length blurHorizontal_length)
next
  fix p assume "p < length (blurHorizontalWith exactArith kern r d w h)"
  then have p: "p < w * h" by (simp only: blurHorizontalWith_length)
  note xy = raster_point [OF p]
  have "blurHorizontalWith exactArith kern r d w h ! (p div w * w + p mod w) =
        blurHorizontal kern r d w h ! (p div w * w + p mod w)"
    unfolding blurHorizontalWith_nth [OF assms xy(1,2)] blurHorizontal_nth [OF assms xy(1,2)]
      weighted_store_exact ..
  then show "blurHorizontalWith exactArith kern r d w h ! p = blurHorizontal kern r d w h ! p"
    unfolding xy(3) .
qed

lemma blurVerticalWith_exact:
  assumes "length t = w * h"
  shows "blurVerticalWith exactArith kern r t w h = blurVertical kern r t w h"
proof (rule nth_equalityI)
  show "length (blurVerticalWith exactArith kern r t w h) = length (blurVertical kern r t w h)"
    by (simp only: blurVerticalWith_length blurVertical_length)
next
  fix p assume "p < length (blurVerticalWith exactArith kern r t w h)"
  then have p: "p < w * h" by (simp only: blurVerticalWith_length)
  note xy = raster_point [OF p]
  have "blurVerticalWith exactArith kern r t w h ! (p div w * w + p mod w) =
        blurVertical kern r t w h ! (p div w * w + p mod w)"
    unfolding blurVerticalWith_nth [OF assms xy(1,2)] blurVertical_nth [OF assms xy(1,2)]
      weighted_store_exact ..
  then show "blurVerticalWith exactArith kern r t w h ! p = blurVertical kern r t w h ! p"
    unfolding xy(3) .
qed

lemma applyGaussianBlurWith_exact:
  assumes "sigma \<noteq> 0" and "length (data img) = width img * height img"
  shows "applyGaussianBlurWith exactArith img sigma = applyGaussianBlur img sigma"
  using assms(1)
  by (simp add: applyGaussianBlurWith_def applyGaussianBlur_def Let_def gaussKernelWith_exact
      gaussHalfSizeWith_exact blurHorizontalWith_exact [OF assms(2)]
      blurVerticalWith_exact [OF blurHorizontal_length])





section \<open>Properties of the Canny-style detector\<close>

lemma maxValue_le_1:
  "fold (\<lambda>v m. if m < v then v else m) xs (m::nat) \<le> 1 \<longleftrightarrow> m \<le> 1 \<and> (\<forall>v \<in> set xs. v \<le> 1)"
  by (induction xs arbitrary: m) auto

lemma cannyEdgeDetection_fails_iff:
  "cannyEdgeDetection img low high sigma = Inl NoEdgesDetected \<longleftrightarrow>
   (\<forall>v \<in> set (data (suppressedEdgesOf img sigma)). v \<le> 1)"
proof -
  have "fold (\<lambda>v m. if m < v then v else m) (data (suppressedEdgesOf img sigma)) (1::nat) \<le> 1 \<longleftrightarrow>
        (\<forall>v \<in> set (data (suppressedEdgesOf img sigma)). v \<le> 1)"
    by (simp only: maxValue_le_1) simp
  then show ?thesis
    unfolding cannyEdgeDetection_def Let_def by (auto simp del: One_nat_def)
qed

lemma convertToGrayscale_constant:
  assumes len: "length (data img) = 4 * width img * height img"
    and const: "\<forall>p < width img * height img.
       data img ! (4 * p) = r \<and> data img ! (4 * p + 1) = g \<and> data img ! (4 * p + 2) = b"
  shows "convertToGrayscale img =
         \<lparr>data = replicate (width img * height img)
                   (toUint8Clamp (Some (luminance (real r) (real g) (real b)))),
          width = width img, height = height img\<rparr>"
proof -
  have "data (convertToGrayscale img) =
        replicate (width img * height img) (toUint8Clamp (Some (luminance (real r) (real g) (real b))))"
  proof (rule nth_equalityI)
    show "length (data (convertToGrayscale img)) =
          length (replicate (width img * height img)
                   (toUint8Clamp (Some (luminance (real r) (real g) (real b)))))"
      by (simp add: convertToGrayscale_length)
  next
    fix p assume "p < length (data (convertToGrayscale img))"
    then have p: "p < width img * height img" by (simp add: convertToGrayscale_length)
    then have "4 * p + 2 < length (data img)" using len by (simp add: mult.assoc)
    from luminanceAt_in_range [OF this] const p
    have "luminanceAt (data img) (4 * p) = Some (luminance (real r) (real g) (real b))"
      by simp
    with convertToGrayscale_nth [OF len p] p
    show "data (convertToGrayscale img) ! p =
          replicate (width img * height img)
            (toUint8Clamp (Some (luminance (real r) (real g) (real b)))) ! p"
      by simp
  qed
  then show ?thesis
    by (simp add: convertToGrayscale_def Let_def)
qed

lemma raster_index:
  fixes p w h :: nat
  assumes "p < w * h"
  shows "p mod w < w" "p div w < h" "p div w * w + p mod w = p"
proof -
  have w: "0 < w" using assms by (cases w) simp_all
  then show "p mod w < w" by simp
  show "p div w < h" using assms w by (simp add: less_mult_imp_div_less mult.commute)
  show "p div w * w + p mod w = p" by simp
qed

lemma blurHorizontal_constant:
  "blurHorizontal kern r (replicate (w * h) c) w h =
   replicate (w * h) (toUint8Clamp (Some (\<Sum>k\<leftarrow>[- r..r]. real c * kern ! nat (k + r))))"
proof (rule nth_equalityI)
  show "length (blurHorizontal kern r (replicate (w * h) c) w h) =
        length (replicate (w * h) (toUint8Clamp (Some (\<Sum>k\<leftarrow>[- r..r]. real c * kern ! nat (k + r)))))"
    by (simp add: blurHorizontal_length)
next
  fix p assume "p < length (blurHorizontal kern r (replicate (w * h) c) w h)"
  then have p: "p < w * h" by (simp add: blurHorizontal_length)
  note ix = raster_index [OF p]
  have "blurHorizontal kern r (replicate (w * h) c) w h ! (p div w * w + p mod w) =
        toUint8Clamp (Some (\<Sum>k\<leftarrow>[- r..r].
            real (replicate (w * h) c ! (p div w * w + nat (clampCoord (int (p mod w) + k) w))) *
            kern ! nat (k + r)))"
    by (rule blurHorizontal_nth [OF _ ix(1,2)]) simp
  also have "\<dots> = toUint8Clamp (Some (\<Sum>k\<leftarrow>[- r..r]. real c * kern ! nat (k + r)))"
    using clamped_column(2) [OF ix(1,2)] by simp
  finally show "blurHorizontal kern r (replicate (w * h) c) w h ! p =
        replicate (w * h) (toUint8Clamp (Some (\<Sum>k\<leftarrow>[- r..r]. real c * kern ! nat (k + r)))) ! p"
    using p by (simp add: ix(3))
qed

lemma blurVertical_constant:
  "blurVertical kern r (replicate (w * h) c) w h =
   replicate (w * h) (toUint8Clamp (Some (\<Sum>k\<leftarrow>[- r..r]. real c * kern ! nat (k + r))))"
proof (rule nth_equalityI)
  show "length (blurVertical kern r (replicate (w * h) c) w h) =
        length (replicate (w * h) (toUint8Clamp (Some (\<Sum>k\<leftarrow>[- r..r]. real c * kern ! nat (k + r)))))"
    by (simp add: blurVertical_length)
next
  fix p assume "p < length (blurVertical kern r (replicate (w * h) c) w h)"
  then have p: "p < w * h" by (simp add: blurVertical_length)
  note ix = raster_index [OF p]
  have "blurVertical kern r (replicate (w * h) c) w h ! (p div w * w + p mod w) =
        toUint8Clamp (Some (\<Sum>k\<leftarrow>[- r..r].
            real (replicate (w * h) c ! (nat (clampCoord (int (p div w) + k) h) * w + p mod w)) *
            kern ! nat (k + r)))"
    by (rule blurVertical_nth [OF _ ix(1,2)]) simp
  also have "\<dots> = toUint8Clamp (Some (\<Sum>k\<leftarrow>[- r..r]. real c * kern ! nat (k + r)))"
    using clamped_row(2) [OF ix(1,2)] by simp
  finally show "blurVertical kern r (replicate (w * h) c) w h ! p =
        replicate (w * h) (toUint8Clamp (Some (\<Sum>k\<leftarrow>[- r..r]. real c * kern ! nat (k + r)))) ! p"
    using p by (simp add: ix(3))
qed

lemma applyGaussianBlur_constant:
  "\<exists>c'. applyGaussianBlur \<lparr>data = replicate (w * h) c, width = w, height = h\<rparr> sigma =
         \<lparr>data = replicate (w * h) c', width = w, height = h\<rparr>"
  by (simp add: applyGaussianBlur_def Let_def blurHorizontal_constant blurVertical_constant)

lemma raster_bound:
  fixes x y w h :: nat
  assumes "x < w" "y < h"
  shows "y * w + x < w * h"
proof -
  have "y * w + x < Suc y * w" using assms(1) by simp
  also have "\<dots> \<le> h * w" using assms(2) by (intro mult_le_mono1) simp
  finally show ?thesis by (simp add: mult.commute)
qed

lemma replicate_update_same: "(replicate n a)[i := a] = replicate n a"
  by (cases "i < n") (simp_all add: list_update_same_conv list_update_beyond)

lemma fold_fixed: "(\<And>y. y \<in> set ys \<Longrightarrow> g y s = s) \<Longrightarrow> fold g ys s = s"
  by (induction ys) simp_all

lemma for_interior_all_zero:
  assumes "\<And>x y. 1 \<le> x \<Longrightarrow> x + 1 < w \<Longrightarrow> 1 \<le> y \<Longrightarrow> y + 1 < h \<Longrightarrow> f x y = (0::nat)"
  shows "for_interior w h (\<lambda>x y m. m[y * w + x := f x y]) (replicate n 0) = replicate n 0"
  unfolding for_interior_def
proof (rule fold_fixed)
  fix y assume y: "y \<in> set [1..<h - 1]"
  show "fold (\<lambda>x m. m[y * w + x := f x y]) [1..<w - 1] (replicate n 0) = replicate n 0"
  proof (rule fold_fixed)
    fix x assume "x \<in> set [1..<w - 1]"
    with y have "f x y = 0" by (intro assms) auto
    then show "(replicate n 0)[y * w + x := f x y] = replicate n 0"
      by (simp add: replicate_update_same)
  qed
qed

lemma for_interior_fst:
  "fst (for_interior w h (\<lambda>x y (m, d). (m[i x y := f x y], d[i x y := g x y])) (m0, d0)) =
   for_interior w h (\<lambda>x y m. m[i x y := f x y]) m0"
proof -
  have inner: "fold (\<lambda>x (m, d). (m[i x y := f x y], d[i x y := g x y])) xs =
        (\<lambda>(m, d). (fold (\<lambda>x m. m[i x y := f x y]) xs m, fold (\<lambda>x d. d[i x y := g x y]) xs d))"
    for y xs
    by (rule ext) (auto simp: fold_pair_split)
  show ?thesis
    unfolding for_interior_def inner by (simp add: fold_pair_split)
qed

lemma sobelOffsets_eq:
  "sobelOffsets = [(- 1, - 1), (- 1, 0), (- 1, 1), (0, - 1), (0, 0), (0, 1), (1, - 1), (1, 0), (1, 1)]"
  by code_simp

lemma sobelOffsets_range:
  "(ky, kx) \<in> set sobelOffsets \<Longrightarrow> - 1 \<le> ky \<and> ky \<le> 1 \<and> - 1 \<le> kx \<and> kx \<le> 1"
  unfolding sobelOffsets_eq by auto


lemma sobelAt_constant:
  assumes "1 \<le> x" "x + 1 < w" "1 \<le> y" "y + 1 < h"
  shows "sobelAt sobel (replicate (w * h) c) w x y =
         Some (\<Sum>(ky, kx)\<leftarrow>sobelOffsets. real c * sobel ! nat ((ky + 1) * 3 + (kx + 1)))"
proof -
  have "js_get (replicate (w * h) c) (nat ((int y + ky) * int w + (int x + kx))) = Some (real c)"
    if "(ky, kx) \<in> set sobelOffsets" for ky kx
  proof -
    from sobelOffsets_range [OF that]
    have r: "- 1 \<le> ky" "ky \<le> 1" "- 1 \<le> kx" "kx \<le> 1" by simp_all
    let ?X = "nat (int x + kx)" and ?Y = "nat (int y + ky)"
    have X: "?X < w" and Y: "?Y < h" using r assms by linarith+
    have "(int y + ky) * int w + (int x + kx) = int (?Y * w + ?X)"
      using r assms by simp
    then have "nat ((int y + ky) * int w + (int x + kx)) = ?Y * w + ?X"
      by (simp only: nat_int)
    with raster_bound [OF X Y] show ?thesis
      by (simp add: js_get_def)
  qed
  then have "map (\<lambda>(ky, kx). (js_get (replicate (w * h) c) (nat ((int y + ky) * int w + (int x + kx))),
                          sobel ! nat ((ky + 1) * 3 + (kx + 1)))) sobelOffsets =
        map (\<lambda>p. (Some (real c), sobel ! nat ((fst p + 1) * 3 + (snd p + 1)))) sobelOffsets"
    by (intro map_cong) auto
  then have "sobelAt sobel (replicate (w * h) c) w x y =
        Some (\<Sum>p\<leftarrow>sobelOffsets. real c * sobel ! nat ((fst p + 1) * 3 + (snd p + 1)))"
    unfolding sobelAt_def by (simp only: weightedSum_defined)
  then show ?thesis by (simp add: case_prod_unfold)
qed


lemma gradientAt_constant:
  assumes "1 \<le> x" "x + 1 < w" "1 \<le> y" "y + 1 < h"
  shows "fst (gradientAt (replicate (w * h) c) w x y) = 0"
proof -
  have "sobelAt sobelX (replicate (w * h) c) w x y = Some 0"
    "sobelAt sobelY (replicate (w * h) c) w x y = Some 0"
    unfolding sobelAt_constant [OF assms]
    by (simp_all add: sobelOffsets_eq sobelX_def sobelY_def)
  then show ?thesis
    by (simp add: gradientAt_def toUint8Clamp_def)
qed


lemma calculateGradients_constant:
  "fst (calculateGradients \<lparr>data = replicate (w * h) c, width = w, height = h\<rparr>) =
   replicate (w * h) 0"
proof -
  have "fst (calculateGradients \<lparr>data = replicate (w * h) c, width = w, height = h\<rparr>) =
        for_interior w h (\<lambda>x y m. m[y * w + x := fst (gradientAt (replicate (w * h) c) w x y)])
          (replicate (w * h) 0)"
    unfolding calculateGradients_def Let_def by (simp add: for_interior_fst)
  also have "\<dots> = replicate (w * h) 0"
    by (rule for_interior_all_zero) (rule gradientAt_constant)
  finally show ?thesis .
qed

lemma suppression_of_zero:
  "data (applyNonMaximumSuppression (replicate (w * h) 0) directionData w h) = replicate (w * h) 0"
proof -
  have "suppressedAt (replicate (w * h) 0) directionData w h x y = 0"
    if "1 \<le> x" "x + 1 < w" "1 \<le> y" "y + 1 < h" for x y
  proof -
    have "x < w" "y < h" using that by simp_all
    from raster_bound [OF this] show ?thesis
      by (simp add: suppressedAt_def Let_def)
  qed
  then have "for_interior w h
               (\<lambda>x y suppressed.
                  suppressed[y * w + x := suppressedAt (replicate (w * h) 0) directionData w h x y])
               (replicate (w * h) 0) = replicate (w * h) 0"
    by (rule for_interior_all_zero)
  then show ?thesis by (simp add: applyNonMaximumSuppression_def)
qed


lemma suppressedEdgesOf_constant:
  assumes len: "length (data img) = 4 * width img * height img"
    and const: "\<forall>p < width img * height img.
       data img ! (4 * p) = r \<and> data img ! (4 * p + 1) = g \<and> data img ! (4 * p + 2) = b"
  shows "data (suppressedEdgesOf img sigma) = replicate (width img * height img) 0"
proof -
  let ?w = "width img" and ?h = "height img"
  let ?c = "toUint8Clamp (Some (luminance (real r) (real g) (real b)))"
  have gray: "convertToGrayscale img = \<lparr>data = replicate (?w * ?h) ?c, width = ?w, height = ?h\<rparr>"
    by (rule convertToGrayscale_constant [OF assms])
  from applyGaussianBlur_constant [of ?w ?h ?c sigma]
  obtain c' where blur: "applyGaussianBlur (convertToGrayscale img) sigma =
      \<lparr>data = replicate (?w * ?h) c', width = ?w, height = ?h\<rparr>"
    unfolding gray by (elim exE)
  obtain gm gd where grad: "calculateGradients \<lparr>data = replicate (?w * ?h) c', width = ?w, height = ?h\<rparr> = (gm, gd)"
    by (cases "calculateGradients \<lparr>data = replicate (?w * ?h) c', width = ?w, height = ?h\<rparr>")
  with calculateGradients_constant [of ?w ?h c'] have gm: "gm = replicate (?w * ?h) 0" by simp
  have "suppressedEdgesOf img sigma =
        applyNonMaximumSuppression (replicate (?w * ?h) 0) gd ?w ?h"
    unfolding suppressedEdgesOf_def Let_def blur grad gm by simp
  then show ?thesis
    by (simp only: suppression_of_zero)
qed


text \<open>
  C1. \<open>cannyEdgeDetection\<close> fails with \<open>NoEdgesDetected\<close> exactly when no value of the
  non-maximum-suppressed gradient magnitude exceeds 1; in particular it fails so, with no
  edge output, for every image whose pixels all have one colour (all black and all white
  among them).
\<close>

theorem cannyEdgeDetection_no_edges:
  "(cannyEdgeDetection img low high sigma = Inl NoEdgesDetected \<longleftrightarrow>
      (\<forall>v \<in> set (data (suppressedEdgesOf img sigma)). v \<le> 1)) \<and>
   (length (data img) = 4 * width img * height img \<and>
    (\<forall>p < width img * height img.
       data img ! (4 * p) = r \<and> data img ! (4 * p + 1) = g \<and> data img ! (4 * p + 2) = b) \<longrightarrow>
    cannyEdgeDetection img low high sigma = Inl NoEdgesDetected)"
proof (intro conjI impI)
  show "cannyEdgeDetection img low high sigma = Inl NoEdgesDetected \<longleftrightarrow>
      (\<forall>v \<in> set (data (suppressedEdgesOf img sigma)). v \<le> 1)"
    by (rule cannyEdgeDetection_fails_iff)
next
  assume a: "length (data img) = 4 * width img * height img \<and>
    (\<forall>p < width img * height img.
       data img ! (4 * p) = r \<and> data img ! (4 * p + 1) = g \<and> data img ! (4 * p + 2) = b)"
  have "data (suppressedEdgesOf img sigma) = replicate (width img * height img) 0"
    by (rule suppressedEdgesOf_constant [OF conjunct1 [OF a] conjunct2 [OF a]])
  then show "cannyEdgeDetection img low high sigma = Inl NoEdgesDetected"
    by (simp add: cannyEdgeDetection_fails_iff)
qed


theorem cannyEdgeDetection_no_edges_witness:
  "length (data \<lparr>data = [255, 255, 255, 255, 255, 255, 255, 0], width = 2, height = 1\<rparr>) = 4 * 2 * 1 \<and>
   cannyEdgeDetection \<lparr>data = [255, 255, 255, 255, 255, 255, 255, 0], width = 2, height = 1\<rparr>
     40 70 (14 / 10) = Inl NoEdgesDetected \<and>
   length (data \<lparr>data = [0, 0, 0, 255, 0, 0, 0, 255, 0, 0, 0, 255,
                          0, 0, 0, 255, 0, 0, 0, 255, 0, 0, 0, 255,
                          0, 0, 0, 255, 0, 0, 0, 255, 0, 0, 0, 255],
                  width = 3, height = 3\<rparr>) = 4 * 3 * 3 \<and>
   cannyEdgeDetection \<lparr>data = [0, 0, 0, 255, 0, 0, 0, 255, 0, 0, 0, 255,
                                0, 0, 0, 255, 0, 0, 0, 255, 0, 0, 0, 255,
                                0, 0, 0, 255, 0, 0, 0, 255, 0, 0, 0, 255],
                        width = 3, height = 3\<rparr>
     40 70 (14 / 10) = Inl NoEdgesDetected"
proof -
  let ?img = "\<lparr>data = [255, 255, 255, 255, 255, 255, 255, 0], width = 2, height = 1\<rparr>"
  have const: "\<forall>p < width ?img * height ?img.
       data ?img ! (4 * p) = 255 \<and> data ?img ! (4 * p + 1) = 255 \<and> data ?img ! (4 * p + 2) = 255"
  proof (intro allI impI)
    fix p :: nat
    assume "p < width ?img * height ?img"
    then have "p < 2" by simp
    then have "p = 0 \<or> p = 1" by arith
    then show "data ?img ! (4 * p) = 255 \<and> data ?img ! (4 * p + 1) = 255 \<and>
               data ?img ! (4 * p + 2) = 255"
      by (elim disjE) simp_all
  qed
  have len: "length (data ?img) = 4 * width ?img * height ?img" by simp
  have white: "cannyEdgeDetection ?img 40 70 (14 / 10) = Inl NoEdgesDetected"
    by (rule mp [OF conjunct2 [OF cannyEdgeDetection_no_edges [of ?img 40 70 "14 / 10" 255 255 255]]
          conjI [OF len const]])
  let ?black = "\<lparr>data = [0, 0, 0, 255, 0, 0, 0, 255, 0, 0, 0, 255,
                          0, 0, 0, 255, 0, 0, 0, 255, 0, 0, 0, 255,
                          0, 0, 0, 255, 0, 0, 0, 255, 0, 0, 0, 255],
                  width = 3, height = 3\<rparr>"
  have const_black: "\<forall>p < width ?black * height ?black.
       data ?black ! (4 * p) = 0 \<and> data ?black ! (4 * p + 1) = 0 \<and> data ?black ! (4 * p + 2) = 0"
  proof (intro allI impI)
    fix p :: nat
    assume "p < width ?black * height ?black"
    then have "p < 9" by simp
    then have "p = 0 \<or> p = 1 \<or> p = 2 \<or> p = 3 \<or> p = 4 \<or> p = 5 \<or> p = 6 \<or> p = 7 \<or> p = 8"
      by arith
    then show "data ?black ! (4 * p) = 0 \<and> data ?black ! (4 * p + 1) = 0 \<and>
               data ?black ! (4 * p + 2) = 0"
      by (elim disjE) simp_all
  qed
  have len_black: "length (data ?black) = 4 * width ?black * height ?black" by simp
  have black: "cannyEdgeDetection ?black 40 70 (14 / 10) = Inl NoEdgesDetected"
    by (rule mp [OF conjunct2 [OF cannyEdgeDetection_no_edges [of ?black 40 70 "14 / 10" 0 0 0]]
          conjI [OF len_black const_black]])
  show ?thesis using white black by simp
qed

section \<open>Properties of the wall merger\<close>

lemma boundingSegment_one:
  "wall_c w = (x1, y1, x2, y2) \<Longrightarrow>
   boundingSegment [w] = (min x1 x2, min y1 y2, max x1 x2, max y1 y2)"
  by (simp add: boundingSegment_def)

lemma boundingSegment_two:
  "wall_c w1 = (x1, y1, x2, y2) \<Longrightarrow> wall_c w2 = (x3, y3, x4, y4) \<Longrightarrow>
   boundingSegment [w1, w2] =
     (min (min x1 x2) (min x3 x4), min (min y1 y2) (min y3 y4),
      max (max x1 x2) (max x3 x4), max (max y1 y2) (max y3 y4))"
  by (simp add: boundingSegment_def min.commute max.commute)

lemma buildWallMap_two:
  "buildWallMap bucket [w1, w2] =
   mapAdd (keyB bucket w2) w2 (mapAdd (keyA bucket w2) w2
     (mapAdd (keyB bucket w1) w1 (mapAdd (keyA bucket w1) w1 [])))"
  by (simp add: buildWallMap_def)

lemma buildWallIdToAB_two:
  "buildWallIdToAB bucket [w1, w2] =
   [wall_id w1 \<mapsto> (keyA bucket w1, keyB bucket w1), wall_id w2 \<mapsto> (keyA bucket w2, keyB bucket w2)]"
  by (simp add: buildWallIdToAB_def)

lemma two_walls_sets_keys:
  fixes a1 b1 a2 b2 :: endpointKey
  assumes ids: "wall_id w1 \<noteq> wall_id w2"
  shows "map_option snd
           (collectSets (Suc (Suc (Suc (Suc (Suc n)))))
              (mapAdd b2 w2 (mapAdd a2 w2 (mapAdd b1 w1 (mapAdd a1 w1 []))))
              [wall_id w1 \<mapsto> (a1, b1), wall_id w2 \<mapsto> (a2, b2)]
              (mapAdd b2 w2 (mapAdd a2 w2 (mapAdd b1 w1 (mapAdd a1 w1 [])))) ([], [])) =
         Some (if a1 = a2 \<or> a1 = b2 \<or> b1 = a2 \<or> b1 = b2
               then [[w1, w2]] else [[w1], [w2]])"
proof -
  have ne: "w1 \<noteq> w2" "w2 \<noteq> w1" using ids by auto
  have ids': "wall_id w2 \<noteq> wall_id w1" using ids by simp
  show ?thesis
    apply (cases "a1 = b1"; cases "a2 = b2"; cases "a1 = a2";
        cases "a1 = b2"; cases "b1 = a2"; cases "b1 = b2")
    apply (simp_all add: visitBody_def setAdd_def wallsAt_def ne ids ids')
    done
qed


lemma two_walls_sets:
  assumes ids: "wall_id w1 \<noteq> wall_id w2"
  shows "map_option snd
           (collectSets (Suc (Suc (Suc (Suc (Suc n))))) (buildWallMap bucket [w1, w2])
              (buildWallIdToAB bucket [w1, w2]) (buildWallMap bucket [w1, w2]) ([], [])) =
         Some (if keyA bucket w1 = keyA bucket w2 \<or> keyA bucket w1 = keyB bucket w2 \<or>
                  keyB bucket w1 = keyA bucket w2 \<or> keyB bucket w1 = keyB bucket w2
               then [[w1, w2]] else [[w1], [w2]])"
  unfolding buildWallMap_two buildWallIdToAB_two by (rule two_walls_sets_keys [OF ids])

lemma combineSceneWalls_pair:
  assumes fuel: "5 \<le> fuel"
    and basic: "isBasicWall hostConst w1" "isBasicWall hostConst w2"
    and ids: "wall_id w1 \<noteq> wall_id w2"
  shows "combineSceneWalls fuel hostConst bucket [w1, w2] =
         Some (if keyA bucket w1 = keyA bucket w2 \<or> keyA bucket w1 = keyB bucket w2 \<or>
                  keyB bucket w1 = keyA bucket w2 \<or> keyB bucket w1 = keyB bucket w2
               then [boundingSegment [w1, w2]]
               else [boundingSegment [w1], boundingSegment [w2]])"
proof -
  define n where "n = fuel - 5"
  have n: "fuel = Suc (Suc (Suc (Suc (Suc n))))"
    using fuel by (simp add: n_def)
  let ?r = "collectSets fuel (buildWallMap bucket [w1, w2]) (buildWallIdToAB bucket [w1, w2])
              (buildWallMap bucket [w1, w2]) ([], [])"
  let ?sets = "if keyA bucket w1 = keyA bucket w2 \<or> keyA bucket w1 = keyB bucket w2 \<or>
                  keyB bucket w1 = keyA bucket w2 \<or> keyB bucket w1 = keyB bucket w2
               then [[w1, w2]] else [[w1], [w2]]"
  from two_walls_sets [OF ids, of n bucket]
  have sets: "map_option snd ?r = Some ?sets"
    unfolding n .
  then obtain vk where r: "?r = Some (vk, ?sets)"
    by (cases ?r) auto
  have f: "filter (isBasicWall hostConst) [w1, w2] = [w1, w2]"
    using basic by simp
  have "combineSceneWalls fuel hostConst bucket [w1, w2] = Some (map boundingSegment ?sets)"
    unfolding combineSceneWalls_def Let_def f r by simp
  then show ?thesis by (simp split: if_splits)
qed

lemma isBasicWall_basicWall: "isBasicWall hostConst (basicWall hostConst i cs)"
  by (simp add: isBasicWall_def basicWall_def)

lemma basicWall_sel:
  "wall_id (basicWall hostConst i cs) = i" "wall_c (basicWall hostConst i cs) = cs"
  by (simp_all add: basicWall_def)

lemma dirBucket_horizontal: "0 < dx \<Longrightarrow> dirBucket 0 dx = 0"
  by (simp add: dirBucket_def js_atan2_def js_round_def)

lemma keys_basicWall:
  "keyA bucket (basicWall hostConst i (c0, c1, c2, c3)) =
     (js_round c0, js_round c1, bucket \<bar>c3 - c1\<bar> \<bar>c2 - c0\<bar>)"
  "keyB bucket (basicWall hostConst i (c0, c1, c2, c3)) =
     (js_round c2, js_round c3, bucket \<bar>c3 - c1\<bar> \<bar>c2 - c0\<bar>)"
  by (simp_all add: keyA_def keyB_def wallDir_def basicWall_def)

text \<open>
  C3 (as amended). \<open>combineSceneWalls\<close> applied to exactly two plain walls (with
  distinct ids) that share an endpoint key, i.e. a rounded endpoint together with the
  direction bucket \<open>round(atan2(|dy|, |dx|) * 30)\<close> as the code computes it, gives
  exactly one segment, from the least to the greatest x and y over all four endpoints;
  applied to two plain walls that share no endpoint key it gives two segments, each the
  bounding box (least x, least y, greatest x, greatest y) of one input, which is the
  input itself when its first endpoint has the smaller x and the smaller y. The walk
  needs no more than five nested calls of \<open>visit\<close>.
\<close>

theorem combineSceneWalls_two_walls:
  assumes "5 \<le> fuel"
    and "isBasicWall hostConst w1" and "isBasicWall hostConst w2"
    and "wall_id w1 \<noteq> wall_id w2"
    and "wall_c w1 = (x1, y1, x2, y2)" and "wall_c w2 = (x3, y3, x4, y4)"
  shows "(keyA bucket w1 = keyA bucket w2 \<or> keyA bucket w1 = keyB bucket w2 \<or>
          keyB bucket w1 = keyA bucket w2 \<or> keyB bucket w1 = keyB bucket w2 \<longrightarrow>
          combineSceneWalls fuel hostConst bucket [w1, w2] =
            Some [(min (min x1 x2) (min x3 x4), min (min y1 y2) (min y3 y4),
                   max (max x1 x2) (max x3 x4), max (max y1 y2) (max y3 y4))]) \<and>
         (\<not> (keyA bucket w1 = keyA bucket w2 \<or> keyA bucket w1 = keyB bucket w2 \<or>
             keyB bucket w1 = keyA bucket w2 \<or> keyB bucket w1 = keyB bucket w2) \<longrightarrow>
          combineSceneWalls fuel hostConst bucket [w1, w2] =
            Some [(min x1 x2, min y1 y2, max x1 x2, max y1 y2),
                  (min x3 x4, min y3 y4, max x3 x4, max y3 y4)] \<and>
          (x1 \<le> x2 \<and> y1 \<le> y2 \<and> x3 \<le> x4 \<and> y3 \<le> y4 \<longrightarrow>
           combineSceneWalls fuel hostConst bucket [w1, w2] = Some [wall_c w1, wall_c w2]))"
  unfolding combineSceneWalls_pair [OF assms(1-4)]
    boundingSegment_two [OF assms(5,6)] boundingSegment_one [OF assms(5)]
    boundingSegment_one [OF assms(6)] assms(5,6)
  by (simp add: min.absorb1 max.absorb2)

theorem combineSceneWalls_two_walls_witness:
  "(5::nat) \<le> 5 \<and>
   isBasicWall foundryConsts (basicWall foundryConsts ''a'' (0, 0, 10, 0)) \<and>
   isBasicWall foundryConsts (basicWall foundryConsts ''b'' (10, 0, 20, 0)) \<and>
   wall_id (basicWall foundryConsts ''a'' (0, 0, 10, 0)) \<noteq>
     wall_id (basicWall foundryConsts ''b'' (10, 0, 20, 0)) \<and>
   keyB dirBucket (basicWall foundryConsts ''a'' (0, 0, 10, 0)) =
     keyA dirBucket (basicWall foundryConsts ''b'' (10, 0, 20, 0)) \<and>
   combineSceneWalls 5 foundryConsts dirBucket
     [basicWall foundryConsts ''a'' (0, 0, 10, 0), basicWall foundryConsts ''b'' (10, 0, 20, 0)] =
     Some [(0, 0, 20, 0)] \<and>
   combineSceneWalls 5 foundryConsts dirBucket
     [basicWall foundryConsts ''a'' (0, 0, 10, 0), basicWall foundryConsts ''b'' (0, 10, 10, 10)] =
     Some [(0, 0, 10, 0), (0, 10, 10, 10)]"
  using combineSceneWalls_two_walls
    [of 5 foundryConsts "basicWall foundryConsts ''a'' (0, 0, 10, 0)"
        "basicWall foundryConsts ''b'' (10, 0, 20, 0)" 0 0 10 0 10 0 20 0 dirBucket]
    combineSceneWalls_two_walls
    [of 5 foundryConsts "basicWall foundryConsts ''a'' (0, 0, 10, 0)"
        "basicWall foundryConsts ''b'' (0, 10, 10, 10)" 0 0 10 0 0 10 10 10 dirBucket]
  by (simp add: isBasicWall_basicWall basicWall_sel keys_basicWall dirBucket_horizontal js_round_def)

theorem combineSceneWalls_diagonal_counterexample:
  "combineSceneWalls 5 foundryConsts dirBucket
     [basicWall foundryConsts ''a'' (0, 10, 10, 0),
      basicWall foundryConsts ''b'' (100, 100, 110, 100)] =
     Some [(0, 0, 10, 10), (100, 100, 110, 100)] \<and>
   (js_round 0, js_round 10) \<notin> {(js_round 100, js_round 100), (js_round 110, js_round 100)} \<and>
   (js_round 10, js_round 0) \<notin> {(js_round 100, js_round 100), (js_round 110, js_round 100)} \<and>
   (0, 0, 10, 10) \<noteq> ((0, 10, 10, 0) :: real \<times> real \<times> real \<times> real)"
proof -
  have "combineSceneWalls 5 foundryConsts dirBucket
     [basicWall foundryConsts ''a'' (0, 10, 10, 0),
      basicWall foundryConsts ''b'' (100, 100, 110, 100)] =
     Some [boundingSegment [basicWall foundryConsts ''a'' (0, 10, 10, 0)],
           boundingSegment [basicWall foundryConsts ''b'' (100, 100, 110, 100)]]"
    using combineSceneWalls_pair
      [where fuel = 5 and hostConst = foundryConsts and bucket = dirBucket
         and ?w1.0 = "basicWall foundryConsts ''a'' (0, 10, 10, 0)"
         and ?w2.0 = "basicWall foundryConsts ''b'' (100, 100, 110, 100)"]
    by (simp add: isBasicWall_basicWall basicWall_sel keys_basicWall js_round_def)
  then show ?thesis
    by (simp add: js_round_def boundingSegment_one [OF basicWall_sel(2)])
qed

section \<open>Properties of the k-means segmentation\<close>

lemma closest_fold:
  assumes "fold (closestStep distOf p cs) [0..<n] (None, 0) = (m, c)" and "0 < n"
  shows "c < n \<and> m = Some (distOf p (cs ! c)) \<and> (\<forall>j<n. distOf p (cs ! c) \<le> distOf p (cs ! j))"
  using assms
proof (induction n arbitrary: m c)
  case 0
  then show ?case by simp
next
  case (Suc n)
  obtain m0 c0 where f: "fold (closestStep distOf p cs) [0..<n] (None, 0) = (m0, c0)"
    by (cases "fold (closestStep distOf p cs) [0..<n] (None, 0)") auto
  have step: "closestStep distOf p cs n (m0, c0) = (m, c)"
    using Suc.prems(1) f by simp
  show ?case
  proof (cases "n = 0")
    case True
    then have "m0 = None" "c0 = 0" using f by simp_all
    then show ?thesis using step True by (auto simp: closestStep_def Let_def)
  next
    case False
    then have ih: "c0 < n" "m0 = Some (distOf p (cs ! c0))"
      "\<forall>j<n. distOf p (cs ! c0) \<le> distOf p (cs ! j)"
      using Suc.IH [OF f] by auto
    show ?thesis
    proof (cases "distOf p (cs ! n) < distOf p (cs ! c0)")
      case True
      then have "m = Some (distOf p (cs ! n))" "c = n"
        using step ih(2) by (auto simp: closestStep_def Let_def)
      moreover have "\<forall>j<Suc n. distOf p (cs ! n) \<le> distOf p (cs ! j)"
        using True ih(3) by (auto simp: less_Suc_eq intro: less_imp_le order_trans)
      ultimately show ?thesis by simp
    next
      case False
      then have "m = m0" "c = c0"
        using step ih(2) by (auto simp: closestStep_def Let_def)
      moreover have "\<forall>j<Suc n. distOf p (cs ! c0) \<le> distOf p (cs ! j)"
        using False ih(3) by (auto simp: less_Suc_eq)
      ultimately show ?thesis using ih(1,2) by simp
    qed
  qed
qed

lemma closestCluster_least:
  assumes "cs \<noteq> []"
  shows "closestCluster distOf cs p < length cs"
    and "j < length cs \<Longrightarrow> distOf p (cs ! closestCluster distOf cs p) \<le> distOf p (cs ! j)"
proof -
  obtain m c where f: "fold (closestStep distOf p cs) [0..<length cs] (None, 0) = (m, c)"
    by (cases "fold (closestStep distOf p cs) [0..<length cs] (None, 0)") auto
  have c: "closestCluster distOf cs p = c" by (simp add: closestCluster_def f)
  from closest_fold [OF f] assms
  have r: "c < length cs" "\<forall>j<length cs. distOf p (cs ! c) \<le> distOf p (cs ! j)" by auto
  show "closestCluster distOf cs p < length cs" using r(1) c by simp
  show "j < length cs \<Longrightarrow> distOf p (cs ! closestCluster distOf cs p) \<le> distOf p (cs ! j)"
    using r(2) c by simp
qed









lemma vecAdd_proj:
  "fst (vecAdd a b) = fst a + fst b"
  "fst (snd (vecAdd a b)) = fst (snd a) + fst (snd b)"
  "snd (snd (vecAdd a b)) = snd (snd a) + snd (snd b)"
  by (simp_all add: vecAdd_def split: prod.splits)

lemma sumClusters_fold:
  assumes step: "step = (\<lambda>(pixel, cluster) (newCentroids, counts).
             (newCentroids[cluster := vecAdd (newCentroids ! cluster) pixel],
              counts[cluster := counts ! cluster + 1]))"
    and "\<forall>(p, c) \<in> set xs. c < k" and "length S = k" and "length C = k"
  shows "length (fst (fold step xs (S, C))) = k \<and>
         length (snd (fold step xs (S, C))) = k \<and>
         (\<forall>j<k.
            fst (fst (fold step xs (S, C)) ! j) =
              fst (S ! j) + (\<Sum>(p, c)\<leftarrow>xs. if c = j then fst p else 0) \<and>
            fst (snd (fst (fold step xs (S, C)) ! j)) =
              fst (snd (S ! j)) + (\<Sum>(p, c)\<leftarrow>xs. if c = j then fst (snd p) else 0) \<and>
            snd (snd (fst (fold step xs (S, C)) ! j)) =
              snd (snd (S ! j)) + (\<Sum>(p, c)\<leftarrow>xs. if c = j then snd (snd p) else 0) \<and>
            snd (fold step xs (S, C)) ! j = C ! j + length (filter (\<lambda>(p, c). c = j) xs))"
  using assms(2-)
proof (induction xs arbitrary: S C)
  case Nil
  show ?case using Nil.prems by simp
next
  case (Cons x xs)
  obtain p c where x: "x = (p, c)" by (cases x)
  have c: "c < k" using Cons.prems(1) x by simp
  let ?S = "S[c := vecAdd (S ! c) p]" and ?C = "C[c := C ! c + 1]"
  have rest: "\<forall>(p, c) \<in> set xs. c < k" using Cons.prems(1) by simp
  have len: "length ?S = k" "length ?C = k" using Cons.prems(2,3) by simp_all
  note ih = Cons.IH [OF rest len]
  have f: "fold step (x # xs) (S, C) = fold step xs (?S, ?C)"
    by (simp add: x step)
  have S: "?S ! j = (if j = c then vecAdd (S ! c) p else S ! j)" if "j < k" for j
    using that Cons.prems(2) by (simp add: nth_list_update)
  have C: "?C ! j = (if j = c then C ! c + 1 else C ! j)" if "j < k" for j
    using that Cons.prems(3) by (simp add: nth_list_update)
  show ?case
    unfolding f
  proof (intro conjI allI impI)
    show "length (fst (fold step xs (?S, ?C))) = k" using ih by simp
    show "length (snd (fold step xs (?S, ?C))) = k" using ih by simp
  next
    fix j assume j: "j < k"
    from ih j have
      1: "fst (fst (fold step xs (?S, ?C)) ! j) =
          fst (?S ! j) + (\<Sum>(p, c)\<leftarrow>xs. if c = j then fst p else 0)" and
      2: "fst (snd (fst (fold step xs (?S, ?C)) ! j)) =
          fst (snd (?S ! j)) + (\<Sum>(p, c)\<leftarrow>xs. if c = j then fst (snd p) else 0)" and
      3: "snd (snd (fst (fold step xs (?S, ?C)) ! j)) =
          snd (snd (?S ! j)) + (\<Sum>(p, c)\<leftarrow>xs. if c = j then snd (snd p) else 0)" and
      4: "snd (fold step xs (?S, ?C)) ! j = ?C ! j + length (filter (\<lambda>(p, c). c = j) xs)"
      by simp_all
    show "fst (fst (fold step xs (?S, ?C)) ! j) =
          fst (S ! j) + (\<Sum>(p, c)\<leftarrow>x # xs. if c = j then fst p else 0)"
      unfolding 1 S [OF j] by (simp add: x vecAdd_proj)
    show "fst (snd (fst (fold step xs (?S, ?C)) ! j)) =
          fst (snd (S ! j)) + (\<Sum>(p, c)\<leftarrow>x # xs. if c = j then fst (snd p) else 0)"
      unfolding 2 S [OF j] by (simp add: x vecAdd_proj)
    show "snd (snd (fst (fold step xs (?S, ?C)) ! j)) =
          snd (snd (S ! j)) + (\<Sum>(p, c)\<leftarrow>x # xs. if c = j then snd (snd p) else 0)"
      unfolding 3 S [OF j] by (simp add: x vecAdd_proj)
    show "snd (fold step xs (?S, ?C)) ! j = C ! j + length (filter (\<lambda>(p, c). c = j) (x # xs))"
      unfolding 4 C [OF j] by (simp add: x)
  qed
qed

lemma cluster_members:
  "(\<Sum>(p, c)\<leftarrow>xs. if c = j then h p else (0::real)) =
   (\<Sum>p\<leftarrow>map fst (filter (\<lambda>(p, c). c = j) xs). h p)"
  by (induction xs) (auto split: prod.splits)


lemma sumClusters_result:
  assumes "length cl = length ps" and "\<forall>c \<in> set cl. c < k"
    and "sumClusters ps cl k = (totals, counts)"
  shows "length totals = k" "length counts = k"
    and "j < k \<Longrightarrow> totals ! j =
           (\<Sum>p\<leftarrow>map fst (filter (\<lambda>(p, c). c = j) (zip ps cl)). fst p,
            \<Sum>p\<leftarrow>map fst (filter (\<lambda>(p, c). c = j) (zip ps cl)). fst (snd p),
            \<Sum>p\<leftarrow>map fst (filter (\<lambda>(p, c). c = j) (zip ps cl)). snd (snd p))"
    and "j < k \<Longrightarrow> counts ! j = length (map fst (filter (\<lambda>(p, c). c = j) (zip ps cl)))"
proof -
  have rng: "\<forall>(p, c) \<in> set (zip ps cl). c < k"
    using assms(2) by (auto dest: set_zip_rightD)
  note r = sumClusters_fold [OF refl rng, of "replicate k (0, 0, 0)" "replicate k 0",
      folded sumClusters_def, unfolded assms(3), simplified]
  show "length totals = k" "length counts = k" using r by simp_all
  assume j: "j < k"
  show "counts ! j = length (map fst (filter (\<lambda>(p, c). c = j) (zip ps cl)))"
    using r j by simp
  have "fst (totals ! j) = (\<Sum>p\<leftarrow>map fst (filter (\<lambda>(p, c). c = j) (zip ps cl)). fst p)"
    "fst (snd (totals ! j)) = (\<Sum>p\<leftarrow>map fst (filter (\<lambda>(p, c). c = j) (zip ps cl)). fst (snd p))"
    "snd (snd (totals ! j)) = (\<Sum>p\<leftarrow>map fst (filter (\<lambda>(p, c). c = j) (zip ps cl)). snd (snd p))"
    using r j unfolding cluster_members [symmetric] by simp_all
  then show "totals ! j =
           (\<Sum>p\<leftarrow>map fst (filter (\<lambda>(p, c). c = j) (zip ps cl)). fst p,
            \<Sum>p\<leftarrow>map fst (filter (\<lambda>(p, c). c = j) (zip ps cl)). fst (snd p),
            \<Sum>p\<leftarrow>map fst (filter (\<lambda>(p, c). c = j) (zip ps cl)). snd (snd p))"
    by (cases "totals ! j") simp
qed


lemma averageCentroids_length:
  assumes "length totals = k" "length counts = k"
  shows "length (averageCentroids quotOf totals counts) = k"
  using assms by (simp add: averageCentroids_def)


lemma assignClusters_range:
  assumes "cs \<noteq> []"
  shows "\<forall>c \<in> set (assignClusters distOf ps cs). c < length cs"
  using closestCluster_least(1) [OF assms] by (auto simp: assignClusters_def)


lemma kMeansStep_Some:
  assumes "kMeansStep distOf quotOf threshold ps cs = Some (cl, new, conv)"
  shows "cl = assignClusters distOf ps cs"
    and "new = averageCentroids quotOf (fst (sumClusters ps cl (length cs)))
                 (snd (sumClusters ps cl (length cs)))"
    and "length cl = length ps" and "\<forall>c \<in> set cl. c < length cs"
proof -
  have ok: "\<not> (cs = [] \<and> ps \<noteq> [])"
    using assms by (auto simp: kMeansStep_def split: if_splits)
  show cl: "cl = assignClusters distOf ps cs"
    using assms ok by (auto simp: kMeansStep_def Let_def split: prod.splits if_splits)
  show "new = averageCentroids quotOf (fst (sumClusters ps cl (length cs)))
                 (snd (sumClusters ps cl (length cs)))"
    using assms ok by (auto simp: kMeansStep_def Let_def split: prod.splits if_splits)
  show "length cl = length ps" by (simp add: cl assignClusters_def)
  show "\<forall>c \<in> set cl. c < length cs"
  proof (cases "cs = []")
    case True
    then have "ps = []" using ok by simp
    then show ?thesis by (simp add: cl assignClusters_def)
  next
    case False
    then show ?thesis unfolding cl by (rule assignClusters_range)
  qed
qed








lemma kMeansStep_length:
  assumes step: "kMeansStep distOf quotOf threshold ps cs = Some (cl, new, conv)"
  shows "length new = length cs"
proof -
  note s = kMeansStep_Some [OF step]
  have sc: "sumClusters ps cl (length cs) =
            (fst (sumClusters ps cl (length cs)), snd (sumClusters ps cl (length cs)))"
    by simp
  note sr = sumClusters_result(1,2) [OF s(3,4) sc]
  show ?thesis unfolding s(2) by (rule averageCentroids_length [OF sr])
qed

lemma kMeansLoop_iterations:
  "kMeansLoop distOf quotOf threshold ps n cs cl0 =
     (case kMeansIterations distOf quotOf threshold ps n cs of
        [] \<Rightarrow> if n = 0 then Some (cs, cl0) else None
      | it # its \<Rightarrow> Some (it_newCentroids (last (it # its)), it_clusters (last (it # its))))"
proof (induction n arbitrary: cs cl0)
  case 0
  show ?case by simp
next
  case (Suc n)
  show ?case
  proof (cases "kMeansStep distOf quotOf threshold ps cs")
    case None
    then show ?thesis by simp
  next
    case (Some r)
    obtain cl new conv where r: "r = (cl, new, conv)" by (cases r)
    have step: "kMeansStep distOf quotOf threshold ps cs = Some (cl, new, conv)"
      using Some r by simp
    show ?thesis
    proof (cases conv)
      case True
      then show ?thesis using step by simp
    next
      case False
      let ?rest = "kMeansIterations distOf quotOf threshold ps n new"
      show ?thesis
      proof (cases ?rest)
        case Nil
        have "n = 0"
        proof (rule ccontr)
          assume "n \<noteq> 0"
          then obtain m where m: "n = Suc m" by (cases n) simp_all
          have "kMeansStep distOf quotOf threshold ps new = None"
            using Nil unfolding m by (simp split: option.splits prod.splits)
          then have "new = []" "ps \<noteq> []"
            by (auto simp: kMeansStep_def Let_def split: if_splits prod.splits)
          moreover have "length new = length cs" by (rule kMeansStep_length [OF step])
          ultimately have "cs = [] \<and> ps \<noteq> []" by simp
          then show False using step by (simp add: kMeansStep_def)
        qed
        then show ?thesis using step False by simp
      next
        case (Cons it its)
        then show ?thesis using step False Suc.IH [of new cl] by simp
      qed
    qed
  qed
qed







end
